theory Spec2Isabelle
  imports Main "HOL-Library.Sublist" "HOL-Library.List_Lexorder" "HOL-Library.Char_ord"
begin

section \<open>Strings and numbers of the host language\<close>

text \<open>
  The iCal service (\<^verbatim>\<open>services/ical.ts\<close>) is TypeScript. Its strings are sequences of code
  units; they are modelled as \<^typ>\<open>string\<close>, one \<^typ>\<open>char\<close> per code unit. Nothing below depends
  on the width of a code unit. The numbers that occur (identifiers, time values, calendar
  fields, lengths) are integers within the exact range of a double and are modelled as
  \<^typ>\<open>int\<close>; \<open>NaN\<close> is \<^term>\<open>None\<close> of type \<^typ>\<open>int option\<close>.
\<close>

definition BSL :: char where
  "BSL = CHR 0x5C"

definition LF :: char where
  "LF = CHR 0x0A"

definition CR :: char where
  "CR = CHR 0x0D"

definition CRLF :: string where
  "CRLF = [CR, LF]"

text \<open>\<^verbatim>\<open>text.replace(/c/g, r)\<close> for a pattern of one literal character.\<close>

definition replaceAll :: "char \<Rightarrow> string \<Rightarrow> string \<Rightarrow> string" where
  "replaceAll c r text = concat (map (\<lambda>x. if x = c then r else [x]) text)"

text \<open>\<^verbatim>\<open>text.substring(a, b)\<close>: the arguments are swapped when \<open>a > b\<close> and clamped to the length.\<close>

definition substring :: "nat \<Rightarrow> nat \<Rightarrow> string \<Rightarrow> string" where
  "substring a b text = take (max a b - min a b) (drop (min a b) text)"

text \<open>\<^verbatim>\<open>text.includes(p)\<close>.\<close>

fun includesStr :: "string \<Rightarrow> string \<Rightarrow> bool" where
  "includesStr p [] = (p = [])"
| "includesStr p (c # cs) = (prefix p (c # cs) \<or> includesStr p cs)"

text \<open>
  \<^verbatim>\<open>(text.match(/p/g) || []).length\<close> for a literal pattern: the matches are found from left
  to right and do not overlap.
\<close>

fun matchCount :: "string \<Rightarrow> string \<Rightarrow> nat" where
  "matchCount p [] = (if p = [] then 1 else 0)"
| "matchCount p (c # cs) =
     (if prefix p (c # cs) then 1 + matchCount p (drop (length p - 1) cs)
      else matchCount p cs)"

text \<open>\<^verbatim>\<open>text.split(c)\<close> for a separator of one character: never an empty array.\<close>

fun splitOn :: "char \<Rightarrow> string \<Rightarrow> string list" where
  "splitOn c [] = [[]]"
| "splitOn c (x # xs) =
     (if x = c then [] # splitOn c xs
      else (case splitOn c xs of [] \<Rightarrow> [[x]] | l # ls \<Rightarrow> (x # l) # ls))"

text \<open>\<^verbatim>\<open>lines.join(sep)\<close>.\<close>

fun join :: "string \<Rightarrow> string list \<Rightarrow> string" where
  "join sep [] = []"
| "join sep [l] = l"
| "join sep (l # m # ls) = l @ sep @ join sep (m # ls)"

text \<open>Decimal rendering of an integer, as \<^verbatim>\<open>String(n)\<close> and \<^verbatim>\<open>`${n}`\<close> give it.\<close>

fun showNat :: "nat \<Rightarrow> string" where
  "showNat n =
     (if n < 10 then [''0123456789'' ! n]
      else showNat (n div 10) @ [''0123456789'' ! (n mod 10)])"

declare showNat.simps [simp del]

definition showInt :: "int \<Rightarrow> string" where
  "showInt i = (if i < 0 then CHR ''-'' # showNat (nat (- i)) else showNat (nat i))"

text \<open>\<^verbatim>\<open>String(x)\<close> of a number that may be \<open>NaN\<close>.\<close>

definition showNum :: "int option \<Rightarrow> string" where
  "showNum x = (case x of None \<Rightarrow> ''NaN'' | Some i \<Rightarrow> showInt i)"

text \<open>\<^verbatim>\<open>s.padStart(n, '0')\<close>.\<close>

definition padStart :: "nat \<Rightarrow> string \<Rightarrow> string" where
  "padStart n s = replicate (n - length s) (CHR ''0'') @ s"

text \<open>\<^verbatim>\<open>xs.sort(cmp)\<close>: the sort of an array is stable; insertion from the right keeps equal
  elements in their order.\<close>

fun insortBy :: "('a \<Rightarrow> 'a \<Rightarrow> int) \<Rightarrow> 'a \<Rightarrow> 'a list \<Rightarrow> 'a list" where
  "insortBy cmp x [] = [x]"
| "insortBy cmp x (y # ys) = (if cmp x y \<le> 0 then x # y # ys else y # insortBy cmp x ys)"

fun sortBy :: "('a \<Rightarrow> 'a \<Rightarrow> int) \<Rightarrow> 'a list \<Rightarrow> 'a list" where
  "sortBy cmp [] = []"
| "sortBy cmp (x # xs) = insortBy cmp x (sortBy cmp xs)"


section \<open>The Date object\<close>

text \<open>
  \<^verbatim>\<open>Date\<close> is a built-in of the host, modelled after ECMA-262: a Date holds a time value,
  the milliseconds since 1970-01-01T00:00:00Z, or \<open>NaN\<close> (an Invalid Date). The calendar
  fields are those of the proleptic Gregorian calendar. Local time is the time value
  shifted by the local time zone adjustment of the process, taken as a fixed offset.
\<close>

type_synonym jsdate = "int option"

definition msPerDay :: int where
  "msPerDay = 86400000"

definition Day :: "int \<Rightarrow> int" where
  "Day t = t div msPerDay"

definition TimeWithinDay :: "int \<Rightarrow> int" where
  "TimeWithinDay t = t mod msPerDay"

text \<open>
  The year of a day, after ECMA-262: \<open>DaysInYear\<close>, \<open>DayFromYear\<close> (the day number of the
  first day of a year) and \<open>YearFromTime\<close>, the largest year that starts on or before the
  day. It is found by counting up from a year that starts no later.
\<close>

definition DaysInYear :: "int \<Rightarrow> int" where
  "DaysInYear y =
     (if y mod 4 \<noteq> 0 then 365 else if y mod 100 \<noteq> 0 then 366
      else if y mod 400 \<noteq> 0 then 365 else 366)"

definition DayFromYear :: "int \<Rightarrow> int" where
  "DayFromYear y = 365 * (y - 1970) + (y - 1969) div 4 - (y - 1901) div 100 + (y - 1601) div 400"

function yearUp :: "int \<Rightarrow> int \<Rightarrow> int" where
  "yearUp day y = (if DayFromYear (y + 1) \<le> day then yearUp day (y + 1) else y)"
  by pat_completeness auto
termination
proof (relation "measure (\<lambda>(day, y). nat (day - DayFromYear y))")
  show "wf (measure (\<lambda>(day, y). nat (day - DayFromYear y)))" by simp
next
  fix day y :: int
  assume a: "DayFromYear (y + 1) \<le> day"
  have lin: "a \<le> a' \<Longrightarrow> b' \<le> b + 1 \<Longrightarrow> c \<le> c'
      \<Longrightarrow> 365 * (y - 1970) + a - b + c < 365 * (y + 1 - 1970) + a' - b' + c'"
    for a a' b b' c c' :: int by simp
  have f1: "(y - 1969) div 4 \<le> (y + 1 - 1969) div 4" by (rule zdiv_mono1) simp_all
  have f3: "(y - 1601) div 400 \<le> (y + 1 - 1601) div 400" by (rule zdiv_mono1) simp_all
  have "(y + 1 - 1901) div 100 \<le> (y - 1901 + 100) div 100" by (rule zdiv_mono1) simp_all
  also have "(y - 1901 + 100) div 100 = (y - 1901) div 100 + 1" by (rule div_add_self2) simp
  finally have f2: "(y + 1 - 1901) div 100 \<le> (y - 1901) div 100 + 1" .
  from lin[OF f1 f2 f3] have "DayFromYear y < DayFromYear (y + 1)"
    unfolding DayFromYear_def .
  with a show "((day, y + 1), (day, y)) \<in> measure (\<lambda>(day, y). nat (day - DayFromYear y))"
    by simp
qed

declare yearUp.simps [simp del]

definition YearFromDay :: "int \<Rightarrow> int" where
  "YearFromDay day = yearUp day (1970 + (if 0 \<le> day then day div 366 else day div 365))"

definition YearFromTime :: "int \<Rightarrow> int" where
  "YearFromTime t = YearFromDay (Day t)"

text \<open>1 in a leap year, 0 otherwise.\<close>

definition InLeapYear :: "int \<Rightarrow> int" where
  "InLeapYear t = DaysInYear (YearFromTime t) - 365"

definition DayWithinYear :: "int \<Rightarrow> int" where
  "DayWithinYear t = Day t - DayFromYear (YearFromTime t)"

text \<open>The table of ECMA-262 for the month (numbered from 0, as \<^verbatim>\<open>getMonth\<close> returns it) of
  a day within the year, and the day within the year on which a month starts.\<close>

definition monthOfDay :: "int \<Rightarrow> int \<Rightarrow> int" where
  "monthOfDay dayWithinYear leap =
     (if dayWithinYear < 31 then 0 else if dayWithinYear < 59 + leap then 1
      else if dayWithinYear < 90 + leap then 2 else if dayWithinYear < 120 + leap then 3
      else if dayWithinYear < 151 + leap then 4 else if dayWithinYear < 181 + leap then 5
      else if dayWithinYear < 212 + leap then 6 else if dayWithinYear < 243 + leap then 7
      else if dayWithinYear < 273 + leap then 8 else if dayWithinYear < 304 + leap then 9
      else if dayWithinYear < 334 + leap then 10 else 11)"

definition monthStart :: "int \<Rightarrow> int \<Rightarrow> int" where
  "monthStart leap m =
     (if m = 0 then 0 else if m = 1 then 31 else if m = 2 then 59 + leap
      else if m = 3 then 90 + leap else if m = 4 then 120 + leap
      else if m = 5 then 151 + leap else if m = 6 then 181 + leap
      else if m = 7 then 212 + leap else if m = 8 then 243 + leap
      else if m = 9 then 273 + leap else if m = 10 then 304 + leap
      else 334 + leap)"

definition MonthFromTime :: "int \<Rightarrow> int" where
  "MonthFromTime t = monthOfDay (DayWithinYear t) (InLeapYear t)"

definition DateFromTime :: "int \<Rightarrow> int" where
  "DateFromTime t = DayWithinYear t - monthStart (InLeapYear t) (MonthFromTime t) + 1"

definition HourFromTime :: "int \<Rightarrow> int" where
  "HourFromTime t = (t div 3600000) mod 24"

definition MinFromTime :: "int \<Rightarrow> int" where
  "MinFromTime t = (t div 60000) mod 60"

definition SecFromTime :: "int \<Rightarrow> int" where
  "SecFromTime t = (t div 1000) mod 60"

definition msFromTime :: "int \<Rightarrow> int" where
  "msFromTime t = t mod 1000"

text \<open>\<open>MakeDay\<close>: the day number of day \<open>date\<close> of a month (numbered from 0, carried into
  the year beyond 0 to 11) of a year; \<open>date\<close> may lie outside the month.\<close>

definition MakeDay :: "int \<Rightarrow> int \<Rightarrow> int \<Rightarrow> int" where
  "MakeDay year month date =
     (let ym = year + month div 12; mn = month mod 12
      in DayFromYear ym + monthStart (DaysInYear ym - 365) mn + date - 1)"

definition MakeTime :: "int \<Rightarrow> int \<Rightarrow> int \<Rightarrow> int \<Rightarrow> int" where
  "MakeTime h m s ms = h * 3600000 + m * 60000 + s * 1000 + ms"

definition MakeDate :: "int \<Rightarrow> int \<Rightarrow> int" where
  "MakeDate day time = day * msPerDay + time"

definition TimeClip :: "int \<Rightarrow> jsdate" where
  "TimeClip t = (if \<bar>t\<bar> \<le> 8640000000000000 then Some t else None)"

text \<open>The days of a month, numbered from 1.\<close>

definition DaysInMonth :: "int \<Rightarrow> int \<Rightarrow> int" where
  "DaysInMonth y m =
     (if m = 2 then 28 + (DaysInYear y - 365)
      else if m = 4 \<or> m = 6 \<or> m = 9 \<or> m = 11 then 30 else 31)"

text \<open>
  What the process and the engine contribute: the local time zone adjustment in
  milliseconds (\<open>tza\<close>), what \<^verbatim>\<open>new Date(s)\<close> makes of a string outside the date-time format
  of ECMA-262 (\<open>parseFallback\<close>, implementation-defined), the text the engine prints
  for a built-in member of \<^verbatim>\<open>Object.prototype\<close> (\<open>nativeText\<close>, implementation-defined), and
  the sign that \<^verbatim>\<open>a.localeCompare(b)\<close> gives under the collation of the engine's locale
  (\<open>collation\<close>, implementation-defined).
\<close>

record Host =
  tza :: int
  parseFallback :: "string \<Rightarrow> jsdate"
  nativeText :: "string \<Rightarrow> string"
  collation :: "string \<Rightarrow> string \<Rightarrow> int"

definition LocalTime :: "Host \<Rightarrow> int \<Rightarrow> int" where
  "LocalTime host t = t + tza host"

definition UTC :: "Host \<Rightarrow> int \<Rightarrow> int" where
  "UTC host t = t - tza host"

definition getFullYear :: "Host \<Rightarrow> jsdate \<Rightarrow> int option" where
  "getFullYear host d = map_option (\<lambda>t. YearFromTime (LocalTime host t)) d"

definition getMonth :: "Host \<Rightarrow> jsdate \<Rightarrow> int option" where
  "getMonth host d = map_option (\<lambda>t. MonthFromTime (LocalTime host t)) d"

definition getDate :: "Host \<Rightarrow> jsdate \<Rightarrow> int option" where
  "getDate host d = map_option (\<lambda>t. DateFromTime (LocalTime host t)) d"

definition getHours :: "Host \<Rightarrow> jsdate \<Rightarrow> int option" where
  "getHours host d = map_option (\<lambda>t. HourFromTime (LocalTime host t)) d"

definition getMinutes :: "Host \<Rightarrow> jsdate \<Rightarrow> int option" where
  "getMinutes host d = map_option (\<lambda>t. MinFromTime (LocalTime host t)) d"

definition getSeconds :: "Host \<Rightarrow> jsdate \<Rightarrow> int option" where
  "getSeconds host d = map_option (\<lambda>t. SecFromTime (LocalTime host t)) d"

definition getUTCDate :: "jsdate \<Rightarrow> int option" where
  "getUTCDate d = map_option DateFromTime d"

definition getTime :: "jsdate \<Rightarrow> int option" where
  "getTime d = d"

text \<open>\<^verbatim>\<open>d.setDate(n)\<close> and \<^verbatim>\<open>d.setUTCDate(n)\<close>, returning the Date as updated.\<close>

definition setDate :: "Host \<Rightarrow> int option \<Rightarrow> jsdate \<Rightarrow> jsdate" where
  "setDate host n d =
     (case (d, n) of
        (Some t, Some dt) \<Rightarrow>
          (let lt = LocalTime host t;
               newDate = MakeDate (MakeDay (YearFromTime lt) (MonthFromTime lt) dt) (TimeWithinDay lt)
           in TimeClip (UTC host newDate))
      | _ \<Rightarrow> None)"

definition setUTCDate :: "int option \<Rightarrow> jsdate \<Rightarrow> jsdate" where
  "setUTCDate n d =
     (case (d, n) of
        (Some t, Some dt) \<Rightarrow>
          TimeClip (MakeDate (MakeDay (YearFromTime t) (MonthFromTime t) dt) (TimeWithinDay t))
      | _ \<Rightarrow> None)"

text \<open>\<^verbatim>\<open>new Date(ms)\<close> of a number.\<close>

definition newDateOfNumber :: "int option \<Rightarrow> jsdate" where
  "newDateOfNumber n = (case n of None \<Rightarrow> None | Some t \<Rightarrow> TimeClip t)"

subsection \<open>Parsing the date-time format\<close>

definition digitOf :: "char \<Rightarrow> int option" where
  "digitOf = map_of
     [(CHR ''0'', 0), (CHR ''1'', 1), (CHR ''2'', 2), (CHR ''3'', 3), (CHR ''4'', 4),
      (CHR ''5'', 5), (CHR ''6'', 6), (CHR ''7'', 7), (CHR ''8'', 8), (CHR ''9'', 9)]"

fun digitsVal :: "string \<Rightarrow> int option" where
  "digitsVal [] = Some 0"
| "digitsVal (c # cs) =
     (case (digitOf c, digitsVal cs) of
        (Some x, Some r) \<Rightarrow> Some (x * 10 ^ length cs + r)
      | _ \<Rightarrow> None)"

text \<open>\<^verbatim>\<open>YYYY-MM-DD\<close> with a month and a day that exist, and what follows it.\<close>

definition isoDate :: "string \<Rightarrow> ((int \<times> int \<times> int) \<times> string) option" where
  "isoDate s =
     (if length s \<ge> 10 \<and> s ! 4 = CHR ''-'' \<and> s ! 7 = CHR ''-'' then
        (case (digitsVal (take 4 s), digitsVal (take 2 (drop 5 s)), digitsVal (take 2 (drop 8 s))) of
           (Some y, Some m, Some d) \<Rightarrow>
             (if 1 \<le> m \<and> m \<le> 12 \<and> 1 \<le> d \<and> d \<le> DaysInMonth y m
              then Some ((y, m, d), drop 10 s) else None)
         | _ \<Rightarrow> None)
      else None)"

text \<open>An optional \<^verbatim>\<open>Z\<close> at the end: \<open>True\<close> for UTC, \<open>False\<close> for local time.\<close>

definition isoZone :: "string \<Rightarrow> bool option" where
  "isoZone s = (if s = [] then Some False else if s = ''Z'' then Some True else None)"

text \<open>An optional \<^verbatim>\<open>.sss\<close>, then the zone.\<close>

definition isoFraction :: "string \<Rightarrow> (int \<times> bool) option" where
  "isoFraction s =
     (if s \<noteq> [] \<and> hd s = CHR ''.'' then
        (if length s \<ge> 4 then
           (case (digitsVal (take 3 (drop 1 s)), isoZone (drop 4 s)) of
              (Some ms, Some z) \<Rightarrow> Some (ms, z)
            | _ \<Rightarrow> None)
         else None)
      else map_option (\<lambda>z. (0, z)) (isoZone s))"

text \<open>An optional \<^verbatim>\<open>:ss\<close>, then the fraction and the zone.\<close>

definition isoSeconds :: "string \<Rightarrow> (int \<times> int \<times> bool) option" where
  "isoSeconds s =
     (if s \<noteq> [] \<and> hd s = CHR '':'' then
        (if length s \<ge> 3 then
           (case (digitsVal (take 2 (drop 1 s)), isoFraction (drop 3 s)) of
              (Some sec, Some (ms, z)) \<Rightarrow> (if sec \<le> 59 then Some (sec, ms, z) else None)
            | _ \<Rightarrow> None)
         else None)
      else map_option (\<lambda>(ms, z). (0, ms, z)) (isoFraction s))"

text \<open>\<^verbatim>\<open>HH:mm\<close>, then the rest: the time within the day and the zone.\<close>

definition isoTime :: "string \<Rightarrow> (int \<times> bool) option" where
  "isoTime s =
     (if length s \<ge> 5 \<and> s ! 2 = CHR '':'' then
        (case (digitsVal (take 2 s), digitsVal (take 2 (drop 3 s)), isoSeconds (drop 5 s)) of
           (Some h, Some mi, Some (sec, ms, z)) \<Rightarrow>
             (if h \<le> 23 \<and> mi \<le> 59 then Some (MakeTime h mi sec ms, z) else None)
         | _ \<Rightarrow> None)
      else None)"

definition isoDateTime :: "string \<Rightarrow> ((int \<times> int \<times> int) \<times> int \<times> bool) option" where
  "isoDateTime s =
     (case isoDate s of
        Some (ymd, rest) \<Rightarrow>
          (if rest \<noteq> [] \<and> hd rest = CHR ''T''
           then map_option (\<lambda>(tod, z). (ymd, tod, z)) (isoTime (tl rest))
           else None)
      | None \<Rightarrow> None)"

text \<open>
  \<^verbatim>\<open>new Date(s)\<close> of a string. A date-time without a zone is local time. Every other
  string is left to the engine.
\<close>

definition newDateOfString :: "Host \<Rightarrow> string \<Rightarrow> jsdate" where
  "newDateOfString host s =
     (case isoDateTime s of
        Some ((y, m, d), tod, z) \<Rightarrow>
          (let t = MakeDate (MakeDay y (m - 1) d) tod
           in TimeClip (if z then t else UTC host t))
      | None \<Rightarrow> Option.bind (parseFallback host s) TimeClip)"

text \<open>\<^verbatim>\<open>d.toISOString()\<close>; an Invalid Date raises a \<^verbatim>\<open>RangeError\<close>.\<close>

datatype error = RangeError

definition padNum :: "nat \<Rightarrow> int \<Rightarrow> string" where
  "padNum n i = padStart n (showInt i)"

definition isoYear :: "int \<Rightarrow> string" where
  "isoYear y =
     (if 0 \<le> y \<and> y \<le> 9999 then padNum 4 y
      else (if y < 0 then CHR ''-'' else CHR ''+'') # padNum 6 \<bar>y\<bar>)"

definition isoString :: "int \<Rightarrow> string" where
  "isoString t =
     isoYear (YearFromTime t) @ ''-'' @ padNum 2 (MonthFromTime t + 1) @ ''-''
       @ padNum 2 (DateFromTime t) @ ''T'' @ padNum 2 (HourFromTime t) @ '':''
       @ padNum 2 (MinFromTime t) @ '':'' @ padNum 2 (SecFromTime t) @ ''.''
       @ padNum 3 (msFromTime t) @ ''Z''"

definition toISOString :: "jsdate \<Rightarrow> error + string" where
  "toISOString d = (case d of None \<Rightarrow> Inl RangeError | Some t \<Rightarrow> Inr (isoString t))"

text \<open>\<^verbatim>\<open>s.split('T')[0]\<close>.\<close>

definition datePart :: "string \<Rightarrow> string" where
  "datePart s = (case splitOn (CHR ''T'') s of [] \<Rightarrow> [] | x # xs \<Rightarrow> x)"


section \<open>Events and configuration\<close>

text \<open>
  The interface \<^verbatim>\<open>Event\<close> of \<^verbatim>\<open>models/Event.ts\<close>. It declares \<^verbatim>\<open>event_date\<close> a string
  \<^verbatim>\<open>YYYY-MM-DD\<close>; the database driver is configured with \<^verbatim>\<open>dateStrings: false\<close> and hands
  over Date objects, and the service tests \<^verbatim>\<open>instanceof Date\<close> everywhere: both occur.
  \<^verbatim>\<open>null\<close> is \<^term>\<open>None\<close>.
\<close>

datatype dateInput = DateString string | DateObject jsdate

record Event =
  event_id :: int
  user_hash :: string
  title :: string
  event_date :: dateInput
  event_time :: "string option"
  icon :: string
  description :: "string option"
  created_at :: jsdate
  updated_at :: jsdate

text \<open>
  \<^verbatim>\<open>ICalConfig\<close>. The constructor spreads a \<^verbatim>\<open>Partial<ICalConfig>\<close> over the defaults, and
  a property that is present with the value \<^verbatim>\<open>undefined\<close> (the feed route passes such
  properties) overrides the default: a field of the configuration is a string or
  \<^verbatim>\<open>undefined\<close>, which is \<^term>\<open>None\<close>.
\<close>

record ICalConfig =
  prodId :: "string option"
  calName :: "string option"
  calDescription :: "string option"
  timezone :: "string option"
  url :: "string option"

text \<open>A property of an object literal: absent, or present with a value.\<close>

datatype 'a property = Absent | Own 'a

record PartialICalConfig =
  prodId_opt :: "string option property"
  calName_opt :: "string option property"
  calDescription_opt :: "string option property"
  timezone_opt :: "string option property"
  url_opt :: "string option property"

definition spread :: "'a \<Rightarrow> 'a property \<Rightarrow> 'a" where
  "spread dflt p = (case p of Absent \<Rightarrow> dflt | Own v \<Rightarrow> v)"

text \<open>\<^verbatim>\<open>process.env.APP_URL || 'http://localhost'\<close>: an unset or empty variable gives the default.\<close>

definition appUrlOrDefault :: "string option \<Rightarrow> string" where
  "appUrlOrDefault appUrl =
     (case appUrl of None \<Rightarrow> ''http://localhost''
      | Some u \<Rightarrow> if u = [] then ''http://localhost'' else u)"

text \<open>
  The constructor of \<^verbatim>\<open>ICalService\<close>, from the value of \<^verbatim>\<open>APP_URL\<close> and the optional
  argument. The result is the configuration of the service, or the message of an error
  thrown; the source has no statement that throws.
\<close>

definition "constructor" :: "string option \<Rightarrow> PartialICalConfig option \<Rightarrow> string + ICalConfig" where
  "constructor appUrl customConfig =
     (let c = (case customConfig of
                 None \<Rightarrow> \<lparr>prodId_opt = Absent, calName_opt = Absent, calDescription_opt = Absent,
                          timezone_opt = Absent, url_opt = Absent\<rparr>
               | Some c \<Rightarrow> c)
      in Inr \<lparr>prodId = spread (Some ''-//YATWA//Yet Another Trash Web App//EN'') (prodId_opt c),
              calName = spread (Some ''YATWA Calendar'') (calName_opt c),
              calDescription =
                spread (Some ''Personal calendar from YATWA - Yet Another Trash Web App'')
                  (calDescription_opt c),
              timezone = spread (Some ''Europe/Berlin'') (timezone_opt c),
              url = spread (Some (appUrlOrDefault appUrl)) (url_opt c)\<rparr>)"

text \<open>A field of the configuration inside a template literal.\<close>

definition tpl :: "string option \<Rightarrow> string" where
  "tpl v = (case v of None \<Rightarrow> ''undefined'' | Some s \<Rightarrow> s)"


section \<open>The iCal service\<close>

subsection \<open>Formatting\<close>

definition plus1 :: "int option \<Rightarrow> int option" where
  "plus1 n = map_option (\<lambda>i. i + 1) n"

text \<open>\<^verbatim>\<open>`${year}-${month}-${day}`\<close> of the local fields of a Date, as in \<^verbatim>\<open>formatDate\<close> and
  \<^verbatim>\<open>combineDateTime\<close>.\<close>

definition localDateString :: "Host \<Rightarrow> jsdate \<Rightarrow> string" where
  "localDateString host d =
     (let year = getFullYear host d;
          month = padStart 2 (showNum (plus1 (getMonth host d)));
          day = padStart 2 (showNum (getDate host d))
      in showNum year @ ''-'' @ month @ ''-'' @ day)"

definition formatDate :: "Host \<Rightarrow> dateInput \<Rightarrow> string" where
  "formatDate host dateInput =
     (let dateString = (case dateInput of DateObject d \<Rightarrow> localDateString host d
                        | DateString s \<Rightarrow> s)
      in replaceAll (CHR ''-'') [] dateString)"

definition formatDateTime :: "Host \<Rightarrow> jsdate \<Rightarrow> bool \<Rightarrow> string" where
  "formatDateTime host date utc =
     (let year = getFullYear host date;
          month = padStart 2 (showNum (plus1 (getMonth host date)));
          day = padStart 2 (showNum (getDate host date));
          hours = padStart 2 (showNum (getHours host date));
          minutes = padStart 2 (showNum (getMinutes host date));
          seconds = padStart 2 (showNum (getSeconds host date));
          formatted = showNum year @ month @ day @ ''T'' @ hours @ minutes @ seconds
      in if utc then formatted @ ''Z'' else formatted)"

definition combineDateTime :: "Host \<Rightarrow> dateInput \<Rightarrow> string \<Rightarrow> jsdate" where
  "combineDateTime host dateInput timeString =
     (let dateString = (case dateInput of DateObject d \<Rightarrow> localDateString host d
                        | DateString s \<Rightarrow> s)
      in newDateOfString host (dateString @ ''T'' @ timeString))"

subsection \<open>Escaping\<close>

definition escapeText :: "string \<Rightarrow> string" where
  "escapeText text =
     substring 0 1000
       (replaceAll CR []
         (replaceAll LF [BSL, CHR ''n'']
           (replaceAll (CHR '','') [BSL, CHR '','']
             (replaceAll (CHR '';'') [BSL, CHR '';'']
               (replaceAll BSL [BSL, BSL] text)))))"

subsection \<open>Category and priority of an icon\<close>

definition categoryMap :: "(string \<times> string) list" where
  "categoryMap =
     [(''work'', ''BUSINESS''), (''meeting'', ''MEETING''), (''birthday'', ''PERSONAL''),
      (''anniversary'', ''PERSONAL''), (''personal'', ''PERSONAL''), (''family'', ''PERSONAL''),
      (''friends'', ''PERSONAL''), (''health'', ''PERSONAL''), (''travel'', ''VACATION''),
      (''vacation'', ''VACATION''), (''education'', ''EDUCATION''), (''sports'', ''PERSONAL''),
      (''entertainment'', ''PERSONAL''), (''shopping'', ''PERSONAL''), (''project'', ''BUSINESS''),
      (''task'', ''BUSINESS''), (''deadline'', ''BUSINESS''), (''conference'', ''MEETING''),
      (''appointment'', ''APPOINTMENT''), (''reminder'', ''PERSONAL''),
      (''important'', ''BUSINESS''), (''party'', ''PERSONAL''), (''event'', ''PERSONAL'')]"

text \<open>
  \<^verbatim>\<open>categoryMap\<close> is an object literal, so \<^verbatim>\<open>categoryMap[icon]\<close> also finds what the literal
  inherits from \<^verbatim>\<open>Object.prototype\<close>: for these names the lookup returns a built-in
  function or object, not \<^verbatim>\<open>undefined\<close>.
\<close>

definition objectPrototypeKeys :: "string list" where
  "objectPrototypeKeys =
     [''constructor'', ''__proto__'', ''hasOwnProperty'', ''isPrototypeOf'',
      ''propertyIsEnumerable'', ''toLocaleString'', ''toString'', ''valueOf'',
      ''__defineGetter__'', ''__defineSetter__'', ''__lookupGetter__'', ''__lookupSetter__'']"

text \<open>What \<^verbatim>\<open>iconToCategory\<close> returns: a string, or a built-in inherited under the given name.\<close>

datatype category = Category string | Inherited string

text \<open>\<^verbatim>\<open>categoryMap[icon] || 'PERSONAL'\<close>: a built-in is truthy, and so is a non-empty string.\<close>

definition iconToCategory :: "string \<Rightarrow> category" where
  "iconToCategory tag =
     (case map_of categoryMap tag of
        Some c \<Rightarrow> if c = [] then Category ''PERSONAL'' else Category c
      | None \<Rightarrow> if tag \<in> set objectPrototypeKeys then Inherited tag
                else Category ''PERSONAL'')"

definition truthy :: "category \<Rightarrow> bool" where
  "truthy c = (case c of Category s \<Rightarrow> s \<noteq> [] | Inherited k \<Rightarrow> True)"

text \<open>A category inside a template literal, or as a property key.\<close>

definition categoryText :: "Host \<Rightarrow> category \<Rightarrow> string" where
  "categoryText host c = (case c of Category s \<Rightarrow> s | Inherited k \<Rightarrow> nativeText host k)"

definition iconToPriority :: "string \<Rightarrow> int" where
  "iconToPriority tag =
     (let highPriority = [''important'', ''deadline'', ''work'', ''meeting'', ''appointment''];
          lowPriority = [''entertainment'', ''shopping'', ''party'']
      in if tag \<in> set highPriority then 1
         else if tag \<in> set lowPriority then 9
         else 5)"

subsection \<open>Generating the feed\<close>

definition generateTimezone :: "string list" where
  "generateTimezone =
     [''BEGIN:VTIMEZONE'', ''TZID:Europe/Berlin'', ''BEGIN:DAYLIGHT'', ''TZOFFSETFROM:+0100'',
      ''TZOFFSETTO:+0200'', ''TZNAME:CEST'', ''DTSTART:19700329T020000'',
      ''RRULE:FREQ=YEARLY;BYMONTH=3;BYDAY=-1SU'', ''END:DAYLIGHT'', ''BEGIN:STANDARD'',
      ''TZOFFSETFROM:+0200'', ''TZOFFSETTO:+0100'', ''TZNAME:CET'', ''DTSTART:19701025T030000'',
      ''RRULE:FREQ=YEARLY;BYMONTH=10;BYDAY=-1SU'', ''END:STANDARD'', ''END:VTIMEZONE'']"

text \<open>The lines of the date and time of an event: the branch on \<^verbatim>\<open>event.event_time\<close>, which
  is taken for a time that is neither \<^verbatim>\<open>null\<close> nor empty.\<close>

definition nextDayDate :: "Host \<Rightarrow> dateInput \<Rightarrow> jsdate" where
  "nextDayDate host dateInput =
     (case dateInput of
        DateObject d \<Rightarrow> setDate host (plus1 (getDate host d)) (newDateOfNumber d)
      | DateString s \<Rightarrow>
          (let d = newDateOfString host (s @ ''T00:00:00.000Z'')
           in setUTCDate (plus1 (getUTCDate d)) d))"

definition dateLines :: "Host \<Rightarrow> Event \<Rightarrow> string list" where
  "dateLines host event =
     (case event_time event of
        Some t \<Rightarrow>
          (if t \<noteq> [] then
             (let eventDateTime = combineDateTime host (event_date event) t;
                  endDateTime = newDateOfNumber
                    (map_option (\<lambda>ms. ms + 60 * 60 * 1000) (getTime eventDateTime))
              in [''DTSTART;TZID=Europe/Berlin:'' @ formatDateTime host eventDateTime False,
                  ''DTEND;TZID=Europe/Berlin:'' @ formatDateTime host endDateTime False])
           else
             [''DTSTART;VALUE=DATE:'' @ formatDate host (event_date event),
              ''DTEND;VALUE=DATE:''
                @ formatDate host (DateObject (nextDayDate host (event_date event)))])
      | None \<Rightarrow>
          [''DTSTART;VALUE=DATE:'' @ formatDate host (event_date event),
           ''DTEND;VALUE=DATE:''
             @ formatDate host (DateObject (nextDayDate host (event_date event)))])"

text \<open>\<^verbatim>\<open>generateEvent\<close>; \<open>now\<close> is what its \<^verbatim>\<open>new Date()\<close> reads from the clock.\<close>

definition generateEvent :: "Host \<Rightarrow> ICalConfig \<Rightarrow> int \<Rightarrow> Event \<Rightarrow> string \<Rightarrow> string list" where
  "generateEvent host config now event userHash =
     (let uid = showInt (event_id event) @ ''-'' @ userHash @ ''@yatwa.app'';
          category = iconToCategory (icon event);
          priority = iconToPriority (icon event)
      in [''BEGIN:VEVENT'',
          ''UID:'' @ uid,
          ''DTSTAMP:'' @ formatDateTime host (Some now) True,
          ''CREATED:'' @ formatDateTime host (created_at event) True,
          ''LAST-MODIFIED:'' @ formatDateTime host (updated_at event) True]
         @ dateLines host event
         @ [''SUMMARY:'' @ escapeText (title event)]
         @ (case description event of
              Some d \<Rightarrow> if d \<noteq> [] then [''DESCRIPTION:'' @ escapeText d] else []
            | None \<Rightarrow> [])
         @ (if truthy category then [''CATEGORIES:'' @ categoryText host category] else [])
         @ [''PRIORITY:'' @ showInt priority,
            ''STATUS:CONFIRMED'',
            ''TRANSP:OPAQUE'',
            ''CLASS:PRIVATE'',
            ''SEQUENCE:0'',
            ''URL:'' @ tpl (url config) @ ''?hash='' @ userHash,
            ''X-YATWA-ICON:'' @ icon event,
            ''X-YATWA-ID:'' @ showInt (event_id event),
            ''END:VEVENT''])"

text \<open>
  The loop over the events. The clock is read once by \<^verbatim>\<open>generateCalendar\<close> and once for
  each event: \<open>clock k\<close> is the \<open>k\<close>-th reading of one call.
\<close>

fun generateEvents ::
  "Host \<Rightarrow> ICalConfig \<Rightarrow> (nat \<Rightarrow> int) \<Rightarrow> nat \<Rightarrow> Event list \<Rightarrow> string \<Rightarrow> string list" where
  "generateEvents host config clock k [] userHash = []"
| "generateEvents host config clock k (event # events) userHash =
     generateEvent host config (clock k) event userHash
       @ generateEvents host config clock (Suc k) events userHash"

definition calendarHeader :: "ICalConfig \<Rightarrow> string \<Rightarrow> string list" where
  "calendarHeader config userHash =
     [''BEGIN:VCALENDAR'',
      ''VERSION:2.0'',
      ''PRODID:'' @ tpl (prodId config),
      ''CALSCALE:GREGORIAN'',
      ''METHOD:PUBLISH'',
      ''X-WR-CALNAME:'' @ tpl (calName config) @ '' - '' @ substring 0 8 userHash,
      ''X-WR-CALDESC:'' @ tpl (calDescription config),
      ''X-WR-TIMEZONE:'' @ tpl (timezone config),
      ''X-PUBLISHED-TTL:PT1H'',
      ''URL:'' @ tpl (url config) @ ''/api/ical/'' @ userHash,
      ''REFRESH-INTERVAL;VALUE=DURATION:PT1H'',
      ''X-WR-RELCALID:'' @ userHash]"

definition calendarLines ::
  "Host \<Rightarrow> ICalConfig \<Rightarrow> (nat \<Rightarrow> int) \<Rightarrow> Event list \<Rightarrow> string \<Rightarrow> string list" where
  "calendarLines host config clock events userHash =
     calendarHeader config userHash @ generateTimezone
       @ generateEvents host config clock 1 events userHash
       @ [''END:VCALENDAR'']"

definition generateCalendar ::
  "Host \<Rightarrow> ICalConfig \<Rightarrow> (nat \<Rightarrow> int) \<Rightarrow> Event list \<Rightarrow> string \<Rightarrow> string" where
  "generateCalendar host config clock events userHash =
     join CRLF (calendarLines host config clock events userHash) @ CRLF"

subsection \<open>Validating a document\<close>

record ValidationReport =
  isValid :: bool
  errors :: "string list"
  warnings :: "string list"

text \<open>The warning of a line, if it is longer than 75; \<open>index\<close> counts from 0.\<close>

definition lineWarning :: "nat \<times> string \<Rightarrow> string list" where
  "lineWarning il =
     (case il of (index, line) \<Rightarrow>
        if length line > 75
        then [''Line '' @ showInt (int index + 1) @ '' exceeds 75 characters (''
                @ showInt (int (length line)) @ '')'']
        else [])"

definition validateCalendar :: "string \<Rightarrow> ValidationReport" where
  "validateCalendar icalContent =
     (let e1 = (if \<not> includesStr ''BEGIN:VCALENDAR'' icalContent
                then [''Missing VCALENDAR begin''] else []);
          e2 = e1 @ (if \<not> includesStr ''END:VCALENDAR'' icalContent
                     then [''Missing VCALENDAR end''] else []);
          e3 = e2 @ (if \<not> includesStr ''VERSION:2.0'' icalContent
                     then [''Missing or invalid VERSION''] else []);
          e4 = e3 @ (if \<not> includesStr ''PRODID:'' icalContent
                     then [''Missing PRODID''] else []);
          eventBegins = matchCount ''BEGIN:VEVENT'' icalContent;
          eventEnds = matchCount ''END:VEVENT'' icalContent;
          e5 = e4 @ (if eventBegins \<noteq> eventEnds
                     then [''Mismatched VEVENT tags: '' @ showInt (int eventBegins) @ '' begin, ''
                             @ showInt (int eventEnds) @ '' end'']
                     else []);
          lines = splitOn LF icalContent;
          w = concat (map lineWarning (enumerate 0 lines))
      in \<lparr>isValid = (length e5 = 0), errors = e5, warnings = w\<rparr>)"

subsection \<open>Statistics\<close>

record CalendarStats =
  totalEvents :: nat
  upcomingEvents :: nat
  eventsByCategory :: "(string \<times> int) list"
  nextEvent :: "Event option"

text \<open>
  The date of an event as a string: \<^verbatim>\<open>toISOString().split('T')[0]\<close> of a Date, which raises
  for an Invalid Date, and the string itself otherwise.
\<close>

definition eventDateString :: "Event \<Rightarrow> error + string" where
  "eventDateString event =
     (case event_date event of
        DateObject d \<Rightarrow> (case toISOString d of Inl err \<Rightarrow> Inl err | Inr s \<Rightarrow> Inr (datePart s))
      | DateString s \<Rightarrow> Inr s)"

text \<open>\<^verbatim>\<open>events.filter(...)\<close> with the callback that compares the date with today; the
  callback may raise.\<close>

fun filterUpcoming :: "string \<Rightarrow> Event list \<Rightarrow> error + Event list" where
  "filterUpcoming today [] = Inr []"
| "filterUpcoming today (event # events) =
     (case eventDateString event of
        Inl err \<Rightarrow> Inl err
      | Inr eventDate \<Rightarrow>
          (case filterUpcoming today events of
             Inl err \<Rightarrow> Inl err
           | Inr rest \<Rightarrow> Inr (if eventDate \<ge> today then event # rest else rest)))"

text \<open>
  \<^verbatim>\<open>eventsByCategory[category] = (eventsByCategory[category] || 0) + 1\<close> on the own
  properties of the object, in the order of their insertion. The keys are the six
  category names and the texts of built-ins, none of which names a member of
  \<^verbatim>\<open>Object.prototype\<close>.
\<close>

fun countCategory :: "string \<Rightarrow> (string \<times> int) list \<Rightarrow> (string \<times> int) list" where
  "countCategory k [] = [(k, 1)]"
| "countCategory k ((k', n) # rest) =
     (if k = k' then (k', n + 1) # rest else (k', n) # countCategory k rest)"

text \<open>
  The two formats of the \<^verbatim>\<open>Event\<close> interface: the calendar date that a string
  \<^verbatim>\<open>YYYY-MM-DD\<close> names, and the time of day that a string \<^verbatim>\<open>HH:MM:SS\<close> names, in seconds
  after midnight.
\<close>

definition calendarDate :: "string \<Rightarrow> (int \<times> int \<times> int) option" where
  "calendarDate s =
     (case isoDate s of
        Some (ymd, rest) \<Rightarrow> if rest = [] then Some ymd else None
      | None \<Rightarrow> None)"

definition timeOfDay :: "string \<Rightarrow> int option" where
  "timeOfDay s =
     (if length s = 8 \<and> s ! 2 = CHR '':'' \<and> s ! 5 = CHR '':'' then
        (case (digitsVal (take 2 s), digitsVal (take 2 (drop 3 s)), digitsVal (take 2 (drop 6 s))) of
           (Some h, Some mi, Some sec) \<Rightarrow>
             (if h \<le> 23 \<and> mi \<le> 59 \<and> sec \<le> 59 then Some (h * 3600 + mi * 60 + sec) else None)
         | _ \<Rightarrow> None)
      else None)"

text \<open>
  \<^verbatim>\<open>a.localeCompare(b)\<close>. The order is the collation of the engine, which is not that of the
  code units in general (it puts a colon before a digit, for one). Two dates
  \<^verbatim>\<open>YYYY-MM-DD\<close>, and two times \<^verbatim>\<open>HH:MM:SS\<close>, carry the same separators at the same places
  and are equal or differ first at a digit, and digits collate in numeric order: such a pair
  is ordered as its code units are. Every other pair is left to the engine.
\<close>

definition localeCompare :: "Host \<Rightarrow> string \<Rightarrow> string \<Rightarrow> int" where
  "localeCompare host a b =
     (if (calendarDate a \<noteq> None \<and> calendarDate b \<noteq> None)
         \<or> (timeOfDay a \<noteq> None \<and> timeOfDay b \<noteq> None)
      then (if a < b then - 1 else if a = b then 0 else 1)
      else collation host a b)"

text \<open>
  The callback of \<^verbatim>\<open>sort\<close>. It is only called on events that passed the filter, whose
  date string exists; an all-day event compares as \<^verbatim>\<open>00:00:00\<close>.
\<close>

definition dateOf :: "Event \<Rightarrow> string" where
  "dateOf event = (case eventDateString event of Inr s \<Rightarrow> s | Inl err \<Rightarrow> [])"

definition timeOf :: "Event \<Rightarrow> string" where
  "timeOf event =
     (case event_time event of None \<Rightarrow> ''00:00:00''
      | Some t \<Rightarrow> if t = [] then ''00:00:00'' else t)"

definition compareEvents :: "Host \<Rightarrow> Event \<Rightarrow> Event \<Rightarrow> int" where
  "compareEvents host a b =
     (let dateCompare = localeCompare host (dateOf a) (dateOf b)
      in if dateCompare \<noteq> 0 then dateCompare
         else localeCompare host (timeOf a) (timeOf b))"

definition generateStats :: "Host \<Rightarrow> int \<Rightarrow> Event list \<Rightarrow> error + CalendarStats" where
  "generateStats host now events =
     (let today = datePart (isoString now)
      in case filterUpcoming today events of
           Inl err \<Rightarrow> Inl err
         | Inr upcoming \<Rightarrow>
             (let byCategory =
                    foldl (\<lambda>m event. countCategory (categoryText host (iconToCategory (icon event))) m)
                      [] events;
                  sortedUpcoming = sortBy (compareEvents host) upcoming
              in Inr \<lparr>totalEvents = length events,
                      upcomingEvents = length upcoming,
                      eventsByCategory = byCategory,
                      nextEvent = (case sortedUpcoming of [] \<Rightarrow> None | e # es \<Rightarrow> Some e)\<rparr>))"


section \<open>Notions used to state the properties\<close>

subsection \<open>Escaped text\<close>

text \<open>What the escaping makes of one character of the input.\<close>

definition escapeChar :: "char \<Rightarrow> string" where
  "escapeChar c =
     (if c = BSL then [BSL, BSL]
      else if c = CHR '';'' then [BSL, CHR '';'']
      else if c = CHR '','' then [BSL, CHR '','']
      else if c = LF then [BSL, CHR ''n'']
      else if c = CR then []
      else [c])"

text \<open>
  A text in which every backslash starts one of the escape sequences of the format and no
  semicolon, comma or line break stands unescaped.
\<close>

fun properlyEscaped :: "string \<Rightarrow> bool" where
  "properlyEscaped [] = True"
| "properlyEscaped [c] = (c \<notin> {BSL, CHR '';'', CHR '','', LF, CR})"
| "properlyEscaped (c # d # cs) =
     (if c = BSL then d \<in> {BSL, CHR '';'', CHR '','', CHR ''n''} \<and> properlyEscaped cs
      else c \<notin> {CHR '';'', CHR '','', LF, CR} \<and> properlyEscaped (d # cs))"

text \<open>
  The steps as the specification lists them: each backslash doubled, then each semicolon
  escaped, then each comma, then each newline replaced by backslash and \<open>n\<close>, then the
  carriage returns dropped, then the first 1000 characters kept.
\<close>

definition escapeSteps :: "string \<Rightarrow> string" where
  "escapeSteps s =
     (let s1 = concat (map (\<lambda>c. if c = BSL then [BSL, BSL] else [c]) s);
          s2 = concat (map (\<lambda>c. if c = CHR '';'' then [BSL, CHR '';''] else [c]) s1);
          s3 = concat (map (\<lambda>c. if c = CHR '','' then [BSL, CHR '',''] else [c]) s2);
          s4 = concat (map (\<lambda>c. if c = LF then [BSL, CHR ''n''] else [c]) s3);
          s5 = filter (\<lambda>c. c \<noteq> CR) s4
      in take 1000 s5)"

subsection \<open>Marker texts\<close>

text \<open>
  The two texts that \<^verbatim>\<open>validateCalendar\<close> counts, what it means for a text to hold
  neither, and the texts that \<^verbatim>\<open>generateCalendar\<close> copies into the document: those of
  the configuration and the user, and those of an event.
\<close>

definition isMarker :: "string \<Rightarrow> bool" where
  "isMarker m = (m = ''BEGIN:VEVENT'' \<or> m = ''END:VEVENT'')"

definition markerFree :: "string \<Rightarrow> bool" where
  "markerFree s = (matchCount ''BEGIN:VEVENT'' s = 0 \<and> matchCount ''END:VEVENT'' s = 0)"

definition configTexts :: "ICalConfig \<Rightarrow> string \<Rightarrow> string list" where
  "configTexts config userHash =
     [tpl (prodId config), tpl (calName config), tpl (calDescription config),
      tpl (timezone config), tpl (url config), userHash]"

definition eventTexts :: "Host \<Rightarrow> Event \<Rightarrow> string list" where
  "eventTexts host event =
     [escapeText (title event),
      (case description event of None \<Rightarrow> [] | Some d \<Rightarrow> escapeText d),
      icon event,
      categoryText host (iconToCategory (icon event)),
      formatDate host (event_date event)]"

subsection \<open>Calendar dates\<close>

text \<open>
  The year, month (1 to 12) and day of the month of a day number, and the date that
  follows a date in the calendar.
\<close>

definition civilOfDay :: "int \<Rightarrow> int \<times> int \<times> int" where
  "civilOfDay day =
     (let y = YearFromDay day; leap = DaysInYear y - 365; dwy = day - DayFromYear y;
          m = monthOfDay dwy leap
      in (y, m + 1, dwy - monthStart leap m + 1))"

definition nextCivilDay :: "int \<times> int \<times> int \<Rightarrow> int \<times> int \<times> int" where
  "nextCivilDay ymd =
     (case ymd of (y, m, d) \<Rightarrow>
        if d < DaysInMonth y m then (y, m, d + 1)
        else if m < 12 then (y, m + 1, 1) else (y + 1, 1, 1))"

subsection \<open>Categories\<close>

definition fixedCategories :: "string list" where
  "fixedCategories =
     [''BUSINESS'', ''MEETING'', ''PERSONAL'', ''VACATION'', ''EDUCATION'', ''APPOINTMENT'']"

subsection \<open>Order of the upcoming events\<close>

text \<open>
  The events of today or later. The start of an event whose date is written
  \<^verbatim>\<open>YYYY-MM-DD\<close> and whose time, if it has one, \<^verbatim>\<open>HH:MM:SS\<close>: its calendar date and its time
  of day in seconds after midnight, an event without a time counting as midnight. The
  order of two such events by date and then by time of day.
\<close>

definition upcomingOf :: "int \<Rightarrow> Event list \<Rightarrow> Event list" where
  "upcomingOf now events = filter (\<lambda>e. datePart (isoString now) \<le> dateOf e) events"

definition startOf :: "Event \<Rightarrow> ((int \<times> int \<times> int) \<times> int) option" where
  "startOf e =
     (case (calendarDate (dateOf e), timeOfDay (timeOf e)) of
        (Some ymd, Some sec) \<Rightarrow> Some (ymd, sec)
      | _ \<Rightarrow> None)"

definition dateBefore :: "int \<times> int \<times> int \<Rightarrow> int \<times> int \<times> int \<Rightarrow> bool" where
  "dateBefore p q =
     (case (p, q) of
        ((y, m, d), (y', m', d')) \<Rightarrow> y < y' \<or> (y = y' \<and> (m < m' \<or> (m = m' \<and> d < d'))))"

definition earlier :: "Event \<Rightarrow> Event \<Rightarrow> bool" where
  "earlier a b =
     (case (startOf a, startOf b) of
        (Some (da, ta), Some (db, tb)) \<Rightarrow> dateBefore da db \<or> (da = db \<and> ta < tb)
      | _ \<Rightarrow> False)"

definition notLater :: "Event \<Rightarrow> Event \<Rightarrow> bool" where
  "notLater a b =
     (case (startOf a, startOf b) of
        (Some (da, ta), Some (db, tb)) \<Rightarrow> dateBefore da db \<or> (da = db \<and> ta \<le> tb)
      | _ \<Rightarrow> False)"

subsection \<open>Sample data\<close>

text \<open>The configuration of a service constructed without an argument, \<^verbatim>\<open>APP_URL\<close> unset.\<close>

definition defaultConfig :: ICalConfig where
  "defaultConfig =
     \<lparr>prodId = Some ''-//YATWA//Yet Another Trash Web App//EN'',
      calName = Some ''YATWA Calendar'',
      calDescription = Some ''Personal calendar from YATWA - Yet Another Trash Web App'',
      timezone = Some ''Europe/Berlin'',
      url = Some ''http://localhost''\<rparr>"

text \<open>
  A process whose local time is \<open>offset\<close> milliseconds ahead of UTC. Its collation is not
  consulted on two dates or two times in the formats of the \<^verbatim>\<open>Event\<close> interface.
\<close>

definition hostAt :: "int \<Rightarrow> Host" where
  "hostAt offset =
     \<lparr>tza = offset, parseFallback = (\<lambda>s. None), nativeText = (\<lambda>k. ''[object Object]''),
      collation = (\<lambda>a b. 0)\<rparr>"

text \<open>An event of user \<^verbatim>\<open>0123456789abcdef\<close>, created 2024-01-01T00:00:00Z.\<close>

definition sampleEvent :: "int \<Rightarrow> string \<Rightarrow> string \<Rightarrow> string option \<Rightarrow> Event" where
  "sampleEvent n t d tm =
     \<lparr>event_id = n, user_hash = ''0123456789abcdef'', title = t, event_date = DateString d,
      event_time = tm, icon = ''calendar'', description = None,
      created_at = Some 1704067200000, updated_at = Some 1704067200000\<rparr>"


section \<open>The calendar\<close>

lemma div_step:
  fixes y n :: int
  assumes "0 < n"
  shows "y div n = (y - 1) div n + (if y mod n = 0 then 1 else 0)"
proof (cases "y mod n = 0")
  case True
  have "y = n * (y div n) + y mod n" by simp
  with True have "y - 1 = n * (y div n - 1) + (n - 1)" by (simp add: algebra_simps)
  from int_div_pos_eq[OF this] assms have "(y - 1) div n = y div n - 1" by simp
  with True show ?thesis by simp
next
  case False
  have "0 \<le> y mod n" using assms by simp
  with False have p: "0 \<le> y mod n - 1" by simp
  have q: "y mod n - 1 < n" using assms pos_mod_bound[of n y] by linarith
  have "y = n * (y div n) + y mod n" by simp
  then have "y - 1 = n * (y div n) + (y mod n - 1)" by simp
  from int_div_pos_eq[OF this p q] False show ?thesis by simp
qed

lemma div_offset:
  fixes y n k :: int
  assumes "0 < n"
  shows "(y - n * k) div n = y div n - k"
proof -
  have "y - n * k = n * (y div n - k) + y mod n" by (simp add: algebra_simps)
  from int_div_pos_eq[OF this] assms show ?thesis by simp
qed

lemma DayFromYear_alt:
  "DayFromYear y = 365 * (y - 1970) + (y - 1) div 4 - (y - 1) div 100 + (y - 1) div 400 - 477"
proof -
  have a: "(y - 1969) div 4 = (y - 1) div 4 - 492"
    using div_offset[of 4 "y - 1" 492] by simp
  have b: "(y - 1901) div 100 = (y - 1) div 100 - 19"
    using div_offset[of 100 "y - 1" 19] by simp
  have c: "(y - 1601) div 400 = (y - 1) div 400 - 4"
    using div_offset[of 400 "y - 1" 4] by simp
  show ?thesis unfolding DayFromYear_def a b c by simp
qed

lemma mod_100_4: "(y::int) mod 100 = 0 \<Longrightarrow> y mod 4 = 0"
proof -
  assume "y mod 100 = 0"
  then have "100 dvd y" by (simp add: mod_eq_0_iff_dvd)
  moreover have "(4::int) dvd 100" by simp
  ultimately have "4 dvd y" by (rule dvd_trans[rotated])
  then show ?thesis by (simp add: mod_eq_0_iff_dvd)
qed

lemma mod_400_100: "(y::int) mod 400 = 0 \<Longrightarrow> y mod 100 = 0"
proof -
  assume "y mod 400 = 0"
  then have "400 dvd y" by (simp add: mod_eq_0_iff_dvd)
  moreover have "(100::int) dvd 400" by simp
  ultimately have "100 dvd y" by (rule dvd_trans[rotated])
  then show ?thesis by (simp add: mod_eq_0_iff_dvd)
qed

lemma DayFromYear_Suc_lin:
  fixes a b c a' b' c' i j k y :: int
  assumes "a = a' + i" "b = b' + j" "c = c' + k"
  shows "365 * (y + 1 - 1970) + a - b + c - 477
           = (365 * (y - 1970) + a' - b' + c' - 477) + (365 + i - j + k)"
  using assms by simp

lemma DayFromYear_Suc: "DayFromYear (y + 1) = DayFromYear y + DaysInYear y"
proof -
  have z: "y + 1 - 1 = y" by simp
  have e: "DayFromYear (y + 1) = DayFromYear y + (365 + (if y mod 4 = 0 then 1 else 0)
             - (if y mod 100 = 0 then 1 else 0) + (if y mod 400 = 0 then 1 else 0))"
    unfolding DayFromYear_alt z
    by (rule DayFromYear_Suc_lin[OF div_step[of 4 y] div_step[of 100 y] div_step[of 400 y]])
      simp_all
  have "365 + (if y mod 4 = 0 then 1 else 0) - (if y mod 100 = 0 then 1 else 0)
          + (if y mod 400 = 0 then 1 else (0::int)) = DaysInYear y"
    unfolding DaysInYear_def using mod_100_4[of y] mod_400_100[of y]
    by (cases "y mod 4 = 0"; cases "y mod 100 = 0"; cases "y mod 400 = 0"; simp)
  with e show ?thesis by (simp only:)
qed

lemma DaysInYear_bounds: "365 \<le> DaysInYear y" "DaysInYear y \<le> 366"
  by (simp_all add: DaysInYear_def)

lemma DayFromYear_mono: "y \<le> y' \<Longrightarrow> DayFromYear y \<le> DayFromYear y'"
proof (induction y' rule: int_ge_induct)
  case base
  show ?case by simp
next
  case (step i)
  then show ?case using DayFromYear_Suc[of i] DaysInYear_bounds(1)[of i] by simp
qed

lemma DayFromYear_strict: "y < y' \<Longrightarrow> DayFromYear y < DayFromYear y'"
  using DayFromYear_mono[of "y + 1" y'] DayFromYear_Suc[of y] DaysInYear_bounds(1)[of y] by simp

lemma yearUp_bounds:
  "DayFromYear y \<le> day \<Longrightarrow>
     DayFromYear (yearUp day y) \<le> day \<and> day < DayFromYear (yearUp day y + 1)"
proof (induction day y rule: yearUp.induct)
  case (1 day y)
  show ?case
  proof (cases "DayFromYear (y + 1) \<le> day")
    case True
    from 1(1)[OF True True] True show ?thesis by (subst (1 2) yearUp.simps) simp
  next
    case False
    with 1(2) show ?thesis by (subst (1 2) yearUp.simps) simp
  qed
qed

lemma DayFromYear_1970: "DayFromYear 1970 = 0"
  by (simp add: DayFromYear_def)

lemma DayFromYear_above: "0 \<le> k \<Longrightarrow> DayFromYear (1970 + k) \<le> 366 * k"
proof (induction k rule: int_ge_induct)
  case base
  show ?case by (simp add: DayFromYear_1970)
next
  case (step i)
  have "DayFromYear (1970 + (i + 1)) = DayFromYear (1970 + i) + DaysInYear (1970 + i)"
    using DayFromYear_Suc[of "1970 + i"] by (simp add: add.assoc)
  with step DaysInYear_bounds(2)[of "1970 + i"] show ?case by simp
qed

lemma DayFromYear_below: "k \<le> 0 \<Longrightarrow> DayFromYear (1970 + k) \<le> 365 * k"
proof (induction k rule: int_le_induct)
  case base
  show ?case by (simp add: DayFromYear_1970)
next
  case (step i)
  have "DayFromYear (1970 + (i - 1) + 1) = DayFromYear (1970 + (i - 1)) + DaysInYear (1970 + (i - 1))"
    by (rule DayFromYear_Suc)
  moreover have "1970 + (i - 1) + 1 = 1970 + i" by simp
  ultimately have "DayFromYear (1970 + (i - 1)) = DayFromYear (1970 + i) - DaysInYear (1970 + (i - 1))"
    by simp
  with step DaysInYear_bounds(1)[of "1970 + (i - 1)"] show ?case by simp
qed

lemma start_le:
  "DayFromYear (1970 + (if 0 \<le> day then day div 366 else day div 365)) \<le> day"
proof (cases "0 \<le> day")
  case True
  then have k: "0 \<le> day div 366" by (simp add: pos_imp_zdiv_nonneg_iff)
  have "366 * (day div 366) \<le> day"
    using mult_div_mod_eq[of 366 day] pos_mod_sign[of 366 day] by linarith
  with DayFromYear_above[OF k] True show ?thesis by simp
next
  case False
  then have k: "day div 365 \<le> 0" by (simp add: div_nonpos_pos_le0)
  have "365 * (day div 365) \<le> day"
    using mult_div_mod_eq[of 365 day] pos_mod_sign[of 365 day] by linarith
  with DayFromYear_below[OF k] False show ?thesis by simp
qed

lemma YearFromDay_bounds:
  "DayFromYear (YearFromDay day) \<le> day" "day < DayFromYear (YearFromDay day + 1)"
  using yearUp_bounds[OF start_le[of day]] by (simp_all add: YearFromDay_def)

lemma YearFromDay_unique:
  assumes "DayFromYear y \<le> day" "day < DayFromYear (y + 1)"
  shows "YearFromDay day = y"
proof (rule ccontr)
  assume n: "YearFromDay day \<noteq> y"
  show False
  proof (cases "YearFromDay day < y")
    case True
    then have "DayFromYear (YearFromDay day + 1) \<le> DayFromYear y"
      by (intro DayFromYear_mono) simp
    with YearFromDay_bounds(2)[of day] assms(1) show False by simp
  next
    case False
    with n have "y + 1 \<le> YearFromDay day" by simp
    then have "DayFromYear (y + 1) \<le> DayFromYear (YearFromDay day)" by (rule DayFromYear_mono)
    with YearFromDay_bounds(1)[of day] assms(2) show False by simp
  qed
qed

lemma leap_cases: "DaysInYear y - 365 = 0 \<or> DaysInYear y - 365 = 1"
  by (simp add: DaysInYear_def)

lemma month_cases:
  fixes m :: int
  assumes "1 \<le> m" "m \<le> 12"
  shows "m = 1 \<or> m = 2 \<or> m = 3 \<or> m = 4 \<or> m = 5 \<or> m = 6 \<or> m = 7 \<or> m = 8 \<or> m = 9
         \<or> m = 10 \<or> m = 11 \<or> m = 12"
  using assms by arith

lemma within_year:
  assumes "1 \<le> m" "m \<le> 12" "1 \<le> d" "d \<le> DaysInMonth y m" "leap = DaysInYear y - 365"
  shows "0 \<le> monthStart leap (m - 1) + d - 1
         \<and> monthStart leap (m - 1) + d - 1 < 365 + leap
         \<and> monthOfDay (monthStart leap (m - 1) + d - 1) leap = m - 1"
proof -
  from leap_cases[of y] assms(5) have l: "leap = 0 \<or> leap = 1" by simp
  from assms(4,5) have d: "d \<le> (if m = 2 then 28 + leap
      else if m = 4 \<or> m = 6 \<or> m = 9 \<or> m = 11 then 30 else 31)"
    by (auto simp: DaysInMonth_def split: if_splits)
  from month_cases[OF assms(1,2)] l assms(3) d show ?thesis
    by (elim disjE; simp add: monthStart_def monthOfDay_def)
qed

lemma MakeDay_in_year:
  assumes "0 \<le> m" "m \<le> 11"
  shows "MakeDay y m d = DayFromYear y + monthStart (DaysInYear y - 365) m + d - 1"
proof -
  from assms have "m div 12 = 0" "m mod 12 = m" by simp_all
  then show ?thesis by (simp add: MakeDay_def)
qed

lemma civilOfDay_MakeDay:
  assumes "1 \<le> m" "m \<le> 12" "1 \<le> d" "d \<le> DaysInMonth y m"
  shows "civilOfDay (MakeDay y (m - 1) d) = (y, m, d)"
proof -
  define leap where "leap = DaysInYear y - 365"
  define dwy where "dwy = monthStart leap (m - 1) + d - 1"
  from within_year[OF assms leap_def] have w: "0 \<le> dwy" "dwy < 365 + leap"
    "monthOfDay dwy leap = m - 1" by (simp_all add: dwy_def)
  have n: "MakeDay y (m - 1) d = DayFromYear y + dwy"
    using MakeDay_in_year[of "m - 1" y d] assms(1,2) by (simp add: dwy_def leap_def)
  have "DayFromYear y + dwy < DayFromYear (y + 1)"
    using w(2) by (simp add: DayFromYear_Suc leap_def)
  with w(1) have y: "YearFromDay (DayFromYear y + dwy) = y"
    by (intro YearFromDay_unique) simp_all
  show ?thesis
    unfolding n civilOfDay_def Let_def y using w(3) by (simp add: leap_def[symmetric] dwy_def)
qed

lemma month_table:
  assumes "0 \<le> dwy" "dwy < 365 + leap" "leap = 0 \<or> leap = 1" "m = monthOfDay dwy leap + 1"
  shows "1 \<le> m \<and> m \<le> 12 \<and> monthStart leap (m - 1) \<le> dwy
         \<and> dwy - monthStart leap (m - 1) + 1
             \<le> (if m = 2 then 28 + leap
                 else if m = 4 \<or> m = 6 \<or> m = 9 \<or> m = 11 then 30 else 31)"
  unfolding assms(4) using assms(3,1,2) by (elim disjE; simp add: monthOfDay_def monthStart_def)

lemma DaysInMonth_pos: "1 \<le> DaysInMonth y m"
  using DaysInYear_bounds(1)[of y] by (simp add: DaysInMonth_def)

lemma civilOfDay_valid:
  assumes "civilOfDay day = (y, m, d)"
  shows "1 \<le> m \<and> m \<le> 12 \<and> 1 \<le> d \<and> d \<le> DaysInMonth y m \<and> day = MakeDay y (m - 1) d"
proof -
  define leap where "leap = DaysInYear y - 365"
  define dwy where "dwy = day - DayFromYear y"
  from assms have y: "y = YearFromDay day" by (simp add: civilOfDay_def Let_def)
  from assms have m: "m = monthOfDay dwy leap + 1"
    and d: "d = dwy - monthStart leap (monthOfDay dwy leap) + 1"
    unfolding dwy_def leap_def y by (simp_all add: civilOfDay_def Let_def)
  have "0 \<le> dwy" using YearFromDay_bounds(1)[of day] by (simp add: dwy_def y)
  moreover have "dwy < 365 + leap"
    using YearFromDay_bounds(2)[of day] by (simp add: dwy_def y leap_def DayFromYear_Suc)
  moreover have "leap = 0 \<or> leap = 1" using leap_cases[of y] by (simp add: leap_def)
  ultimately have "1 \<le> m \<and> m \<le> 12 \<and> monthStart leap (m - 1) \<le> dwy
         \<and> dwy - monthStart leap (m - 1) + 1
             \<le> (if m = 2 then 28 + leap
                 else if m = 4 \<or> m = 6 \<or> m = 9 \<or> m = 11 then 30 else 31)"
    using m by (rule month_table)
  moreover have d': "d = dwy - monthStart leap (m - 1) + 1" using d m by simp
  ultimately have t: "0 \<le> m - 1" "m - 1 \<le> 11" "monthStart leap (m - 1) \<le> dwy"
    "d \<le> (if m = 2 then 28 + leap
          else if m = 4 \<or> m = 6 \<or> m = 9 \<or> m = 11 then 30 else 31)"
    by simp_all
  from t(4) have "d \<le> DaysInMonth y m"
    by (auto simp: DaysInMonth_def leap_def split: if_splits)
  moreover have "day = MakeDay y (m - 1) d"
    using MakeDay_in_year[OF t(1,2), of y d] by (simp add: d' dwy_def leap_def)
  moreover have "1 \<le> d" using t(3) by (simp add: d')
  ultimately show ?thesis using t(1,2) by simp
qed

lemma monthStart_Suc:
  assumes "1 \<le> m" "m < 12" "leap = DaysInYear y - 365"
  shows "monthStart leap m = monthStart leap (m - 1) + DaysInMonth y m"
proof -
  from assms(1,2) have "m = 1 \<or> m = 2 \<or> m = 3 \<or> m = 4 \<or> m = 5 \<or> m = 6 \<or> m = 7 \<or> m = 8
      \<or> m = 9 \<or> m = 10 \<or> m = 11" by arith
  then show ?thesis
    by (elim disjE; simp add: monthStart_def DaysInMonth_def assms(3))
qed

lemma civilOfDay_next: "civilOfDay (day + 1) = nextCivilDay (civilOfDay day)"
proof -
  obtain y m d where c: "civilOfDay day = (y, m, d)" by (cases "civilOfDay day") auto
  from civilOfDay_valid[OF c] have v: "1 \<le> m" "m \<le> 12" "1 \<le> d" "d \<le> DaysInMonth y m"
    and n: "day = MakeDay y (m - 1) d" by simp_all
  from v(1,2) have r: "0 \<le> m - 1" "m - 1 \<le> 11" by simp_all
  show ?thesis
  proof (cases "d < DaysInMonth y m")
    case True
    have "day + 1 = MakeDay y (m - 1) (d + 1)"
      unfolding n MakeDay_in_year[OF r] by simp
    moreover have "civilOfDay (MakeDay y (m - 1) (d + 1)) = (y, m, d + 1)"
      using True v by (intro civilOfDay_MakeDay) simp_all
    ultimately show ?thesis using True by (simp add: c nextCivilDay_def)
  next
    case False
    with v(4) have e: "d = DaysInMonth y m" by simp
    show ?thesis
    proof (cases "m < 12")
      case True
      have "day + 1 = DayFromYear y + monthStart (DaysInYear y - 365) (m - 1) + d"
        using n MakeDay_in_year[OF r, of y d] by simp
      then have "day + 1 = MakeDay y m 1"
        unfolding e
        using monthStart_Suc[OF v(1) True refl, of y] MakeDay_in_year[of m y 1] v(1) True
        by simp
      moreover have "civilOfDay (MakeDay y (m + 1 - 1) 1) = (y, m + 1, 1)"
        using True v(1) by (intro civilOfDay_MakeDay) (simp_all add: DaysInMonth_pos)
      ultimately show ?thesis using True False by (simp add: c nextCivilDay_def)
    next
      case False
      with v(2) have m12: "m = 12" by simp
      have "day + 1 = DayFromYear y + monthStart (DaysInYear y - 365) (m - 1) + d"
        using n MakeDay_in_year[OF r, of y d] by simp
      then have "day + 1 = DayFromYear (y + 1)"
        unfolding e m12 by (simp add: DayFromYear_Suc monthStart_def DaysInMonth_def)
      also have "\<dots> = MakeDay (y + 1) (1 - 1) 1"
        by (simp add: MakeDay_def monthStart_def)
      finally have "day + 1 = MakeDay (y + 1) (1 - 1) 1" .
      moreover have "civilOfDay (MakeDay (y + 1) (1 - 1) 1) = (y + 1, 1, 1)"
        by (intro civilOfDay_MakeDay) (simp_all add: DaysInMonth_pos)
      ultimately show ?thesis using m12 e by (simp add: c nextCivilDay_def)
    qed
  qed
qed


section \<open>Escaping character by character\<close>

lemma replaceAll_concat_map:
  "replaceAll c r (concat (map f s)) = concat (map (\<lambda>x. replaceAll c r (f x)) s)"
  by (induction s) (simp_all add: replaceAll_def)

lemma replaceAll_as_map: "replaceAll c r s = concat (map (\<lambda>x. if x = c then r else [x]) s)"
  by (simp add: replaceAll_def)

lemma escape_chain_char:
  "replaceAll CR [] (replaceAll LF [BSL, CHR ''n''] (replaceAll (CHR '','') [BSL, CHR '','']
     (replaceAll (CHR '';'') [BSL, CHR '';''] (if x = BSL then [BSL, BSL] else [x])))) = escapeChar x"
  by (simp add: replaceAll_def escapeChar_def BSL_def LF_def CR_def)

lemma escapeText_single_pass: "escapeText s = take 1000 (concat (map escapeChar s))"
proof -
  have "replaceAll CR [] (replaceAll LF [BSL, CHR ''n''] (replaceAll (CHR '','') [BSL, CHR '','']
     (replaceAll (CHR '';'') [BSL, CHR '';''] (replaceAll BSL [BSL, BSL] s)))) = concat (map escapeChar s)"
    unfolding replaceAll_as_map[of BSL] replaceAll_concat_map escape_chain_char ..
  then show ?thesis by (simp add: escapeText_def substring_def)
qed

lemma properlyEscaped_escapeChar:
  "properlyEscaped r \<Longrightarrow> properlyEscaped (escapeChar c @ r)"
  by (cases r) (auto simp: escapeChar_def BSL_def LF_def CR_def)

lemma properlyEscaped_concat: "properlyEscaped (concat (map escapeChar s))"
  by (induction s) (simp_all add: properlyEscaped_escapeChar)

lemma length_escapeChar: "length (escapeChar c) \<le> 2"
  by (simp add: escapeChar_def)

lemma length_concat_escape: "length (concat (map escapeChar s)) \<le> 2 * length s"
proof (induction s)
  case Nil
  then show ?case by simp
next
  case (Cons c s)
  then show ?case using length_escapeChar[of c] by simp
qed

lemma properlyEscaped_escapeText:
  assumes "length s \<le> 500"
  shows "properlyEscaped (escapeText s)"
proof -
  have "length (concat (map escapeChar s)) \<le> 1000"
    using length_concat_escape[of s] assms by linarith
  then show ?thesis by (simp add: escapeText_single_pass properlyEscaped_concat)
qed

section \<open>Counting matches\<close>

lemma prefix_blocker:
  assumes "b \<notin> set m" "prefix m (xs @ b # ys)"
  shows "prefix m xs"
proof -
  from assms(2) obtain r where r: "xs @ b # ys = m @ r" by (auto simp: prefix_def)
  have "length m \<le> length xs"
  proof (rule ccontr)
    assume "\<not> length m \<le> length xs"
    then have "length xs < length m" by simp
    then have "m ! length xs = (m @ r) ! length xs" by (simp add: nth_append)
    also have "\<dots> = b" using r[symmetric] by simp
    finally have "b \<in> set m" using \<open>length xs < length m\<close> nth_mem by metis
    with assms(1) show False by simp
  qed
  then have "m = take (length m) xs" using r
    by (metis append_eq_append_conv_if append_eq_conv_conj)
  then show ?thesis by (metis take_is_prefix)
qed

lemma matchCount_blocker:
  assumes "b \<notin> set m" "m \<noteq> []"
  shows "matchCount m (xs @ b # ys) = matchCount m xs + matchCount m ys"
proof (induction "length xs" arbitrary: xs rule: less_induct)
  case less
  show ?case
  proof (cases xs)
    case Nil
    have "\<not> prefix m (b # ys)" using assms by (cases m) auto
    then show ?thesis using Nil assms by simp
  next
    case (Cons c cs)
    show ?thesis
    proof (cases "prefix m (c # cs)")
      case True
      then have p: "prefix m ((c # cs) @ b # ys)" by (rule prefix_prefix)
      from True have "length m \<le> Suc (length cs)" using prefix_length_le by fastforce
      then have d: "drop (length m - 1) (cs @ b # ys) = drop (length m - 1) cs @ b # ys"
        by simp
      have "length (drop (length m - 1) cs) < length xs" using Cons by simp
      from less[OF this] have
        "matchCount m (drop (length m - 1) cs @ b # ys)
           = matchCount m (drop (length m - 1) cs) + matchCount m ys" .
      with True p d show ?thesis using Cons by simp
    next
      case False
      then have np: "\<not> prefix m ((c # cs) @ b # ys)"
        using prefix_blocker[OF assms(1), of "c # cs" ys] by blast
      have "length cs < length xs" using Cons by simp
      from less[OF this] have "matchCount m (cs @ b # ys) = matchCount m cs + matchCount m ys" .
      with False np show ?thesis using Cons by simp
    qed
  qed
qed

lemma matchCount_skip:
  assumes "m \<noteq> []" "hd m \<notin> set xs"
  shows "matchCount m (xs @ ys) = matchCount m ys"
  using assms by (induction xs) (auto simp: prefix_def neq_Nil_conv)

lemma matchCount_short: "length s < length m \<Longrightarrow> matchCount m s = 0"
proof (induction s)
  case Nil
  then show ?case by auto
next
  case (Cons c s)
  then have "\<not> prefix m (c # s)" using prefix_length_le by fastforce
  with Cons show ?case by simp
qed

lemma matchCount_CRLF:
  assumes "CR \<notin> set m" "LF \<notin> set m" "m \<noteq> []"
  shows "matchCount m (l @ CRLF @ r) = matchCount m l + matchCount m r"
proof -
  have "matchCount m (l @ CR # ([] @ LF # r)) = matchCount m l + matchCount m ([] @ LF # r)"
    by (rule matchCount_blocker[OF assms(1,3)])
  also have "matchCount m ([] @ LF # r) = matchCount m [] + matchCount m r"
    by (rule matchCount_blocker[OF assms(2,3)])
  finally show ?thesis using assms(3) by (simp add: CRLF_def)
qed

lemma matchCount_join:
  assumes "CR \<notin> set m" "LF \<notin> set m" "m \<noteq> []"
  shows "matchCount m (join CRLF ls @ CRLF) = sum_list (map (matchCount m) ls)"
proof (induction ls rule: induct_list012)
  case 1
  show ?case using matchCount_CRLF[OF assms, of "[]" "[]"] assms(3) by simp
next
  case (2 l)
  show ?case using matchCount_CRLF[OF assms, of l "[]"] assms(3) by simp
next
  case (3 l l' ls)
  show ?case using matchCount_CRLF[OF assms, of l "join CRLF (l' # ls) @ CRLF"] 3(2) by simp
qed

lemma set_showNat: "set (showNat n) \<subseteq> set ''0123456789''"
proof (induction n rule: showNat.induct)
  case (1 n)
  have d: "k < 10 \<Longrightarrow> ''0123456789'' ! k \<in> set ''0123456789''" for k :: nat
    by (rule nth_mem) simp
  show ?case
  proof (cases "n < 10")
    case True
    then show ?thesis using d[of n] by (subst showNat.simps) simp
  next
    case False
    have "n mod 10 < 10" by simp
    from d[OF this] 1[OF False] False show ?thesis by (subst showNat.simps) simp
  qed
qed

lemma notin_showNat: "c \<notin> set ''0123456789'' \<Longrightarrow> c \<notin> set (showNat n)"
  using set_showNat[of n] by blast

lemma notin_showInt:
  assumes "c \<notin> set ''-0123456789''"
  shows "c \<notin> set (showInt i)"
proof -
  from assms have "c \<noteq> CHR ''-''" and d: "c \<notin> set ''0123456789''" by simp_all
  then show ?thesis using notin_showNat[OF d] by (simp add: showInt_def)
qed

lemma notin_showNum:
  assumes "c \<notin> set ''-0123456789Na''"
  shows "c \<notin> set (showNum x)"
proof (cases x)
  case None
  from assms show ?thesis by (simp add: showNum_def None)
next
  case (Some i)
  from assms have "c \<notin> set ''-0123456789''" by simp
  from notin_showInt[OF this] show ?thesis by (simp add: showNum_def Some)
qed

lemma notin_padStart:
  assumes "c \<noteq> CHR ''0''" "c \<notin> set s"
  shows "c \<notin> set (padStart n s)"
  using assms by (simp add: padStart_def)

lemma notin_pad_showNum:
  assumes "c \<notin> set ''-0123456789Na''"
  shows "c \<notin> set (padStart n (showNum x))"
proof -
  from assms have "c \<noteq> CHR ''0''" by simp
  then show ?thesis using notin_showNum[OF assms] by (rule notin_padStart)
qed

lemma notin_formatDateTime:
  assumes "c \<notin> set ''-0123456789NaTZ''"
  shows "c \<notin> set (formatDateTime host d utc)"
proof -
  from assms have a: "c \<notin> set ''-0123456789Na''" and t: "c \<noteq> CHR ''T''" "c \<noteq> CHR ''Z''"
    by simp_all
  note n = notin_showNum[OF a] notin_pad_showNum[OF a]
  show ?thesis unfolding formatDateTime_def Let_def using n t by simp
qed

lemma notin_localDateString:
  assumes "c \<notin> set ''-0123456789Na''"
  shows "c \<notin> set (localDateString host d)"
proof -
  from assms have t: "c \<noteq> CHR ''-''" by simp
  note n = notin_showNum[OF assms] notin_pad_showNum[OF assms]
  show ?thesis unfolding localDateString_def Let_def using n t by simp
qed

lemma set_replaceAll_Nil: "set (replaceAll c [] s) \<subseteq> set s"
  by (induction s) (auto simp: replaceAll_def)

lemma notin_formatDate_object:
  assumes "c \<notin> set ''-0123456789Na''"
  shows "c \<notin> set (formatDate host (DateObject d))"
  using notin_localDateString[OF assms, of host d] set_replaceAll_Nil[of "CHR ''-''" "localDateString host d"]
  by (auto simp: formatDate_def)

lemma marker_notin_digits:
  assumes "isMarker m"
  shows "m \<noteq> []" "hd m \<notin> set ''-0123456789NaTZ''" "hd m \<notin> set ''-0123456789Na''"
    "hd m \<notin> set ''-0123456789''" "CR \<notin> set m" "LF \<notin> set m"
  using assms by (auto simp: isMarker_def CR_def LF_def)

lemma matchCount_formatDateTime:
  assumes "isMarker m"
  shows "matchCount m (formatDateTime host d utc) = 0"
  using matchCount_skip[OF marker_notin_digits(1)[OF assms]
      notin_formatDateTime[OF marker_notin_digits(2)[OF assms]], of host d utc "[]"]
    marker_notin_digits(1)[OF assms] by simp

lemma matchCount_formatDate_object:
  assumes "isMarker m"
  shows "matchCount m (formatDate host (DateObject d)) = 0"
  using matchCount_skip[OF marker_notin_digits(1)[OF assms]
      notin_formatDate_object[OF marker_notin_digits(3)[OF assms]], of host d "[]"]
    marker_notin_digits(1)[OF assms] by simp

lemma matchCount_showInt:
  assumes "isMarker m"
  shows "matchCount m (showInt i @ r) = matchCount m r"
  by (rule matchCount_skip[OF marker_notin_digits(1)[OF assms]
      notin_showInt[OF marker_notin_digits(4)[OF assms]]])

lemma isMarker_begin: "isMarker ''BEGIN:VEVENT''" and isMarker_end: "isMarker ''END:VEVENT''"
  by (simp_all add: isMarker_def)

lemma matchCount_showInt0:
  assumes "isMarker m"
  shows "matchCount m (showInt i) = 0"
  using matchCount_showInt[OF assms, of i "[]"] marker_notin_digits(1)[OF assms] by simp

lemma matchCount_take8:
  assumes "isMarker m"
  shows "matchCount m (substring 0 8 s) = 0"
proof -
  have "length (substring 0 8 s) < length m" using assms by (auto simp: substring_def isMarker_def)
  then show ?thesis by (rule matchCount_short)
qed

lemma matchCount_dateLines_begin:
  assumes "matchCount ''BEGIN:VEVENT'' (formatDate host (event_date event)) = 0"
  shows "sum_list (map (matchCount ''BEGIN:VEVENT'') (dateLines host event)) = 0"
  using assms
  by (simp add: dateLines_def Let_def matchCount_formatDateTime[OF isMarker_begin]
      matchCount_formatDate_object[OF isMarker_begin] split: option.split)

lemma matchCount_dateLines_end:
  assumes "matchCount ''END:VEVENT'' (formatDate host (event_date event)) = 0"
  shows "sum_list (map (matchCount ''END:VEVENT'') (dateLines host event)) = 0"
  using assms
  by (simp add: dateLines_def Let_def matchCount_formatDateTime[OF isMarker_end]
      matchCount_formatDate_object[OF isMarker_end] split: option.split)

lemma matchCount_categoryLine_begin:
  assumes "matchCount ''BEGIN:VEVENT'' (categoryText host c) = 0"
  shows "sum_list (map (matchCount ''BEGIN:VEVENT'')
           (if truthy c then [''CATEGORIES:'' @ categoryText host c] else [])) = 0"
  using assms by simp

lemma matchCount_categoryLine_end:
  assumes "matchCount ''END:VEVENT'' (categoryText host c) = 0"
  shows "sum_list (map (matchCount ''END:VEVENT'')
           (if truthy c then [''CATEGORIES:'' @ categoryText host c] else [])) = 0"
  using assms by simp

lemma matchCount_descriptionLine_begin:
  assumes "\<And>x. d = Some x \<Longrightarrow> matchCount ''BEGIN:VEVENT'' (escapeText x) = 0"
  shows "sum_list (map (matchCount ''BEGIN:VEVENT'')
           (case d of Some x \<Rightarrow> if x \<noteq> [] then [''DESCRIPTION:'' @ escapeText x] else []
            | None \<Rightarrow> [])) = 0"
  using assms by (cases d) simp_all

lemma matchCount_generateEvent_begin:
  assumes c: "\<forall>s\<in>set (configTexts config userHash). markerFree s"
    and e: "\<forall>s\<in>set (eventTexts host event). markerFree s"
  shows "sum_list (map (matchCount ''BEGIN:VEVENT'')
           (generateEvent host config now event userHash)) = 1"
proof -
  from c have c': "matchCount ''BEGIN:VEVENT'' (tpl (url config)) = 0"
    "matchCount ''BEGIN:VEVENT'' userHash = 0"
    by (simp_all add: configTexts_def markerFree_def)
  from e have e': "matchCount ''BEGIN:VEVENT'' (escapeText (title event)) = 0"
    "matchCount ''BEGIN:VEVENT'' (icon event) = 0"
    "matchCount ''BEGIN:VEVENT'' (categoryText host (iconToCategory (icon event))) = 0"
    "matchCount ''BEGIN:VEVENT'' (formatDate host (event_date event)) = 0"
    by (simp_all add: eventTexts_def markerFree_def)
  from e have d: "description event = Some x \<Longrightarrow> matchCount ''BEGIN:VEVENT'' (escapeText x) = 0" for x
    by (simp add: eventTexts_def markerFree_def)
  have p: "matchCount ''BEGIN:VEVENT'' (showInt (iconToPriority (icon event))) = 0"
    by (rule matchCount_showInt0[OF isMarker_begin])
  show ?thesis
    unfolding generateEvent_def Let_def
    using c' e' p matchCount_dateLines_begin[OF e'(4)]
      matchCount_categoryLine_begin[OF e'(3)]
      matchCount_descriptionLine_begin[of "description event", OF d]
    by (simp add: matchCount_blocker matchCount_showInt0[OF isMarker_begin]
        matchCount_formatDateTime[OF isMarker_begin] del: sum_list_eq_0_iff)
qed

lemma matchCount_descriptionLine_end:
  assumes "\<And>x. d = Some x \<Longrightarrow> matchCount ''END:VEVENT'' (escapeText x) = 0"
  shows "sum_list (map (matchCount ''END:VEVENT'')
           (case d of Some x \<Rightarrow> if x \<noteq> [] then [''DESCRIPTION:'' @ escapeText x] else []
            | None \<Rightarrow> [])) = 0"
  using assms by (cases d) simp_all

lemma matchCount_generateEvent_end:
  assumes c: "\<forall>s\<in>set (configTexts config userHash). markerFree s"
    and e: "\<forall>s\<in>set (eventTexts host event). markerFree s"
  shows "sum_list (map (matchCount ''END:VEVENT'')
           (generateEvent host config now event userHash)) = 1"
proof -
  from c have c': "matchCount ''END:VEVENT'' (tpl (url config)) = 0"
    "matchCount ''END:VEVENT'' userHash = 0"
    by (simp_all add: configTexts_def markerFree_def)
  from e have e': "matchCount ''END:VEVENT'' (escapeText (title event)) = 0"
    "matchCount ''END:VEVENT'' (icon event) = 0"
    "matchCount ''END:VEVENT'' (categoryText host (iconToCategory (icon event))) = 0"
    "matchCount ''END:VEVENT'' (formatDate host (event_date event)) = 0"
    by (simp_all add: eventTexts_def markerFree_def)
  from e have d: "description event = Some x \<Longrightarrow> matchCount ''END:VEVENT'' (escapeText x) = 0" for x
    by (simp add: eventTexts_def markerFree_def)
  have p: "matchCount ''END:VEVENT'' (showInt (iconToPriority (icon event))) = 0"
    by (rule matchCount_showInt0[OF isMarker_end])
  show ?thesis
    unfolding generateEvent_def Let_def
    using c' e' p matchCount_dateLines_end[OF e'(4)]
      matchCount_categoryLine_end[OF e'(3)]
      matchCount_descriptionLine_end[of "description event", OF d]
    by (simp add: matchCount_blocker matchCount_showInt0[OF isMarker_end]
        matchCount_formatDateTime[OF isMarker_end] del: sum_list_eq_0_iff)
qed

lemma matchCount_header:
  assumes m: "isMarker m" and c: "\<forall>s\<in>set (configTexts config userHash). markerFree s"
  shows "sum_list (map (matchCount m) (calendarHeader config userHash)) = 0"
proof -
  from c have c': "matchCount m (tpl (prodId config)) = 0" "matchCount m (tpl (calName config)) = 0"
    "matchCount m (tpl (calDescription config)) = 0" "matchCount m (tpl (timezone config)) = 0"
    "matchCount m (tpl (url config)) = 0" "matchCount m userHash = 0"
    using m by (auto simp: configTexts_def markerFree_def isMarker_def)
  note t = matchCount_take8[OF isMarker_begin, of userHash] matchCount_take8[OF isMarker_end, of userHash]
  from m show ?thesis
    unfolding calendarHeader_def isMarker_def
    using c' t by (elim disjE) (simp_all add: matchCount_blocker del: sum_list_eq_0_iff)
qed

lemma matchCount_timezone:
  assumes m: "isMarker m"
  shows "sum_list (map (matchCount m) generateTimezone) = 0"
  using m unfolding generateTimezone_def isMarker_def by (elim disjE) simp_all

lemma matchCount_generateEvent:
  assumes "isMarker m" "\<forall>s\<in>set (configTexts config userHash). markerFree s"
    "\<forall>s\<in>set (eventTexts host event). markerFree s"
  shows "sum_list (map (matchCount m) (generateEvent host config now event userHash)) = 1"
  using assms(1) matchCount_generateEvent_begin[OF assms(2,3)] matchCount_generateEvent_end[OF assms(2,3)]
  unfolding isMarker_def by blast

lemma matchCount_generateEvents:
  assumes "isMarker m" "\<forall>s\<in>set (configTexts config userHash). markerFree s"
    "\<forall>event\<in>set events. \<forall>s\<in>set (eventTexts host event). markerFree s"
  shows "sum_list (map (matchCount m) (generateEvents host config clock k events userHash))
           = length events"
  using assms(3)
proof (induction events arbitrary: k)
  case Nil
  then show ?case by simp
next
  case (Cons event events)
  then have "\<forall>s\<in>set (eventTexts host event). markerFree s" by simp
  from matchCount_generateEvent[OF assms(1,2) this] Cons show ?case by simp
qed

lemma matchCount_generateCalendar:
  assumes "isMarker m" "\<forall>s\<in>set (configTexts config userHash). markerFree s"
    "\<forall>event\<in>set events. \<forall>s\<in>set (eventTexts host event). markerFree s"
  shows "matchCount m (generateCalendar host config clock events userHash) = length events"
proof -
  have e: "matchCount m ''END:VCALENDAR'' = 0"
    using assms(1) unfolding isMarker_def by (elim disjE) simp_all
  show ?thesis
    unfolding generateCalendar_def calendarLines_def
    using matchCount_join[OF marker_notin_digits(5,6,1)[OF assms(1)]]
      matchCount_header[OF assms(1,2)] matchCount_timezone[OF assms(1)]
      matchCount_generateEvents[OF assms] e
    by (simp del: sum_list_eq_0_iff)
qed

section \<open>Escaping of free text\<close>

lemma replaceAll_Nil_filter: "replaceAll c [] s = filter (\<lambda>x. x \<noteq> c) s"
  by (induction s) (simp_all add: replaceAll_def)

lemma substring_0: "substring 0 n s = take n s"
  by (simp add: substring_def)

lemma escapeText_steps: "escapeText s = escapeSteps s"
  unfolding escapeText_def escapeSteps_def Let_def substring_0 replaceAll_Nil_filter
  unfolding replaceAll_def ..

lemma summary_line: "''SUMMARY:'' @ escapeText (title event) \<in> set (generateEvent host config now event userHash)"
  by (simp add: generateEvent_def Let_def)

text \<open>
  Claim C2. For every input, \<^const>\<open>escapeText\<close> is the six steps in their order; taken
  together they escape each character of the input exactly once (no sequence produced by
  one step is touched by a later one), before the cut at 1000. A title within the 255
  characters of the data model, whatever commas, semicolons, backslashes and newlines it
  contains, gives a \<^verbatim>\<open>SUMMARY\<close> line whose text is properly escaped.
\<close>

theorem escapeText_in_order:
  "escapeText s = escapeSteps s
   \<and> escapeText s = take 1000 (concat (map escapeChar s))
   \<and> (length (title event) \<le> 255 \<longrightarrow>
        ''SUMMARY:'' @ escapeText (title event)
          \<in> set (generateEvent host config now event userHash)
        \<and> properlyEscaped (escapeText (title event)))"
  using escapeText_steps[of s] escapeText_single_pass[of s] summary_line[of event host config now userHash]
    properlyEscaped_escapeText[of "title event"] by simp

theorem escapeText_in_order_witness:
  "length (title (sampleEvent 1 [CHR ''a'', CHR '','', CHR ''b'', CHR '';'', CHR ''c'', BSL, CHR ''d'', LF, CHR ''e''] ''2024-02-29'' None)) \<le> 255
   \<and> ''SUMMARY:'' @ escapeText (title (sampleEvent 1 [CHR ''a'', CHR '','', CHR ''b'', CHR '';'', CHR ''c'', BSL, CHR ''d'', LF, CHR ''e''] ''2024-02-29'' None))
          \<in> set (generateEvent (hostAt 0) defaultConfig 1704067200000
                (sampleEvent 1 [CHR ''a'', CHR '','', CHR ''b'', CHR '';'', CHR ''c'', BSL, CHR ''d'', LF, CHR ''e''] ''2024-02-29'' None)
                ''0123456789abcdef'')
   \<and> properlyEscaped (escapeText (title (sampleEvent 1 [CHR ''a'', CHR '','', CHR ''b'', CHR '';'', CHR ''c'', BSL, CHR ''d'', LF, CHR ''e''] ''2024-02-29'' None)))
   \<and> escapeText (title (sampleEvent 1 [CHR ''a'', CHR '','', CHR ''b'', CHR '';'', CHR ''c'', BSL, CHR ''d'', LF, CHR ''e''] ''2024-02-29'' None))
       = [CHR ''a'', BSL, CHR '','', CHR ''b'', BSL, CHR '';'', CHR ''c'', BSL, BSL, CHR ''d'', BSL, CHR ''n'', CHR ''e'']"
proof -
  let ?e = "sampleEvent 1 [CHR ''a'', CHR '','', CHR ''b'', CHR '';'', CHR ''c'', BSL, CHR ''d'', LF, CHR ''e''] ''2024-02-29'' None"
  have h: "length (title ?e) \<le> 255" by (simp add: sampleEvent_def)
  have v: "escapeText (title ?e) = [CHR ''a'', BSL, CHR '','', CHR ''b'', BSL, CHR '';'', CHR ''c'', BSL, BSL, CHR ''d'', BSL, CHR ''n'', CHR ''e'']"
    by (simp add: sampleEvent_def escapeText_def replaceAll_def substring_def BSL_def LF_def CR_def)
  note inst = escapeText_in_order[of "title ?e" ?e "hostAt 0" defaultConfig 1704067200000
      "''0123456789abcdef''"]
  note imp = inst[THEN conjunct2, THEN conjunct2]
  note both = mp[OF imp h]
  show ?thesis
    by (rule conjI[OF h conjI[OF both[THEN conjunct1] conjI[OF both[THEN conjunct2] v]]])
qed


section \<open>The validation report\<close>

lemma isValid_errors: "isValid (validateCalendar doc) = (errors (validateCalendar doc) = [])"
  unfolding validateCalendar_def Let_def by (simp only: ValidationReport.simps length_0_conv)

text \<open>
  Claim C8. \<^verbatim>\<open>isValid\<close> is true exactly when the list of errors is empty; two documents
  with the same errors have the same \<^verbatim>\<open>isValid\<close>, whatever their warnings.
\<close>

theorem validateCalendar_isValid:
  "isValid (validateCalendar doc) = (errors (validateCalendar doc) = [])
   \<and> (errors (validateCalendar doc) = errors (validateCalendar doc')
        \<longrightarrow> isValid (validateCalendar doc) = isValid (validateCalendar doc'))"
  using isValid_errors[of doc] isValid_errors[of doc'] by (simp only:) simp

theorem validateCalendar_isValid_witness:
  "errors (validateCalendar ''BEGIN:VCALENDAR VERSION:2.0 PRODID:x END:VCALENDAR'')
     = errors (validateCalendar (''BEGIN:VCALENDAR VERSION:2.0 PRODID:x END:VCALENDAR'' @ replicate 76 (CHR ''x'')))
   \<and> warnings (validateCalendar ''BEGIN:VCALENDAR VERSION:2.0 PRODID:x END:VCALENDAR'') = []
   \<and> warnings (validateCalendar (''BEGIN:VCALENDAR VERSION:2.0 PRODID:x END:VCALENDAR'' @ replicate 76 (CHR ''x'')))
       = [''Line 1 exceeds 75 characters (126)'']
   \<and> isValid (validateCalendar ''BEGIN:VCALENDAR VERSION:2.0 PRODID:x END:VCALENDAR'')
       = isValid (validateCalendar (''BEGIN:VCALENDAR VERSION:2.0 PRODID:x END:VCALENDAR'' @ replicate 76 (CHR ''x'')))"
proof -
  let ?d = "''BEGIN:VCALENDAR VERSION:2.0 PRODID:x END:VCALENDAR''"
  let ?d' = "?d @ replicate 76 (CHR ''x'')"
  have e: "errors (validateCalendar ?d) = errors (validateCalendar ?d')" by code_simp
  have w: "warnings (validateCalendar ?d) = []" by code_simp
  have w': "warnings (validateCalendar ?d') = [''Line 1 exceeds 75 characters (126)'']" by code_simp
  note v = mp[OF validateCalendar_isValid[of ?d ?d', THEN conjunct2] e]
  show ?thesis by (rule conjI[OF e conjI[OF w conjI[OF w' v]]])
qed


section \<open>Determinism of the feed\<close>

lemma generateEvents_clock:
  assumes "\<forall>j. k \<le> j \<and> j < k + length events \<longrightarrow> clock j = clock' j"
  shows "generateEvents host config clock k events userHash
           = generateEvents host config clock' k events userHash"
  using assms
proof (induction events arbitrary: k)
  case Nil
  then show ?case by simp
next
  case (Cons event events)
  from Cons.prems have "clock k = clock' k" by simp
  moreover from Cons.prems have "\<forall>j. Suc k \<le> j \<and> j < Suc k + length events \<longrightarrow> clock j = clock' j"
    by simp
  ultimately show ?case using Cons.IH[of "Suc k"] by simp
qed

text \<open>
  Claim C7. Two runs of \<^const>\<open>generateCalendar\<close> on the same service, events and user, in
  the same process, whose clocks show the same instant \<open>t\<close> at every reading, return the
  same document.
\<close>

theorem generateCalendar_frozen_clock:
  assumes "\<forall>k. clock k = t" and "\<forall>k. clock' k = t"
  shows "generateCalendar host config clock events userHash
           = generateCalendar host config clock' events userHash"
proof -
  from assms have "\<forall>j. 1 \<le> j \<and> j < 1 + length events \<longrightarrow> clock j = clock' j" by simp
  from generateEvents_clock[OF this] show ?thesis
    by (simp add: generateCalendar_def calendarLines_def)
qed

theorem generateCalendar_frozen_clock_witness:
  "(\<forall>k. (\<lambda>k::nat. 1704067200000 :: int) k = 1704067200000)
   \<and> (\<forall>k. (\<lambda>k::nat. 1704067200000 + 0 * int k) k = 1704067200000)
   \<and> generateCalendar (hostAt 3600000) defaultConfig (\<lambda>k. 1704067200000)
         [sampleEvent 1 ''Leap day'' ''2024-02-29'' None] ''0123456789abcdef''
       = generateCalendar (hostAt 3600000) defaultConfig (\<lambda>k. 1704067200000 + 0 * int k)
         [sampleEvent 1 ''Leap day'' ''2024-02-29'' None] ''0123456789abcdef''"
proof -
  have a: "\<forall>k. (\<lambda>k::nat. 1704067200000 :: int) k = 1704067200000" by simp
  have b: "\<forall>k. (\<lambda>k::nat. 1704067200000 + 0 * int k) k = 1704067200000" by simp
  note c = generateCalendar_frozen_clock[OF a b, of "hostAt 3600000" defaultConfig
      "[sampleEvent 1 ''Leap day'' ''2024-02-29'' None]" "''0123456789abcdef''"]
  show ?thesis by (rule conjI[OF a conjI[OF b c]])
qed

section \<open>Construction of the service\<close>

lemma constructor_default: "constructor None None = Inr defaultConfig"
  by (simp add: constructor_def defaultConfig_def spread_def appUrlOrDefault_def)

text \<open>
  Against claim C6: a service constructed with an empty \<^verbatim>\<open>prodId\<close> is constructed
  without an error, and the document it generates has the line \<^verbatim>\<open>PRODID:\<close> with nothing
  after the colon.
\<close>

theorem constructor_accepts_empty_field:
  "constructor None
     (Some \<lparr>prodId_opt = Own (Some []), calName_opt = Absent, calDescription_opt = Absent,
            timezone_opt = Absent, url_opt = Absent\<rparr>)
     = Inr (defaultConfig\<lparr>prodId := Some []\<rparr>)
   \<and> calendarLines (hostAt 0) (defaultConfig\<lparr>prodId := Some []\<rparr>) (\<lambda>k. 0) []
         ''0123456789abcdef'' ! 2 = ''PRODID:''"
  by (simp add: constructor_def defaultConfig_def spread_def appUrlOrDefault_def
      calendarLines_def calendarHeader_def tpl_def)

text \<open>
  Claim C6 as amended. The constructor never fails: it accepts every partial
  configuration and keeps each property that is present as it is given, an empty string
  and \<^verbatim>\<open>undefined\<close> included.
\<close>

theorem constructor_never_fails:
  "\<not> isl (constructor appUrl customConfig)
   \<and> (customConfig = Some c \<longrightarrow>
        (prodId_opt c = Own v1 \<longrightarrow> prodId (projr (constructor appUrl customConfig)) = v1)
        \<and> (calName_opt c = Own v2 \<longrightarrow> calName (projr (constructor appUrl customConfig)) = v2)
        \<and> (calDescription_opt c = Own v3
             \<longrightarrow> calDescription (projr (constructor appUrl customConfig)) = v3)
        \<and> (timezone_opt c = Own v4 \<longrightarrow> timezone (projr (constructor appUrl customConfig)) = v4)
        \<and> (url_opt c = Own v5 \<longrightarrow> url (projr (constructor appUrl customConfig)) = v5))"
  by (simp add: constructor_def spread_def Let_def)

theorem constructor_never_fails_witness:
  "\<not> isl (constructor None
       (Some \<lparr>prodId_opt = Own (Some []), calName_opt = Own None, calDescription_opt = Absent,
              timezone_opt = Absent, url_opt = Absent\<rparr>))
   \<and> prodId (projr (constructor None
       (Some \<lparr>prodId_opt = Own (Some []), calName_opt = Own None, calDescription_opt = Absent,
              timezone_opt = Absent, url_opt = Absent\<rparr>))) = Some []
   \<and> calName (projr (constructor None
       (Some \<lparr>prodId_opt = Own (Some []), calName_opt = Own None, calDescription_opt = Absent,
              timezone_opt = Absent, url_opt = Absent\<rparr>))) = None"
  using constructor_never_fails[of None
      "Some \<lparr>prodId_opt = Own (Some []), calName_opt = Own None, calDescription_opt = Absent,
              timezone_opt = Absent, url_opt = Absent\<rparr>"
      "\<lparr>prodId_opt = Own (Some []), calName_opt = Own None, calDescription_opt = Absent,
              timezone_opt = Absent, url_opt = Absent\<rparr>" "Some []" None]
  by simp

section \<open>Category and priority\<close>

lemma iconToPriority_range: "iconToPriority tag \<in> {1, 5, 9}"
  by (simp add: iconToPriority_def Let_def)

lemma categoryMap_values:
  "map_of categoryMap tag = Some c \<Longrightarrow> c \<in> set fixedCategories"
  by (simp add: categoryMap_def fixedCategories_def split: if_splits)

lemma iconToCategory_fixed:
  assumes "tag \<notin> set objectPrototypeKeys"
  shows "iconToCategory tag \<in> Category ` set fixedCategories"
proof (cases "map_of categoryMap tag")
  case None
  with assms show ?thesis by (simp add: iconToCategory_def fixedCategories_def)
next
  case (Some c)
  from categoryMap_values[OF Some] have "c \<in> set fixedCategories" .
  moreover have "Category ''PERSONAL'' \<in> Category ` set fixedCategories"
    by (simp add: fixedCategories_def)
  ultimately show ?thesis using Some by (simp add: iconToCategory_def)
qed

text \<open>
  Claim C5 at the icon \<^verbatim>\<open>constructor\<close>: the lookup in the object literal finds the member
  inherited from \<^verbatim>\<open>Object.prototype\<close>, which is truthy, so \<^const>\<open>iconToCategory\<close> returns
  that built-in and none of the six categories.
\<close>

theorem iconToCategory_inherited:
  "iconToCategory ''constructor'' = Inherited ''constructor''
   \<and> iconToCategory ''constructor'' \<notin> Category ` set fixedCategories"
proof -
  have "iconToCategory ''constructor'' = Inherited ''constructor''" by code_simp
  then show ?thesis by auto
qed

section \<open>Dates by their fields\<close>

lemma civil_of_time:
  "civilOfDay (Day t) = (YearFromTime t, MonthFromTime t + 1, DateFromTime t)"
  by (simp add: civilOfDay_def Let_def YearFromTime_def MonthFromTime_def DateFromTime_def
      DayWithinYear_def InLeapYear_def)

lemma time_fields:
  assumes "civilOfDay (Day t) = (y, m, d)"
  shows "YearFromTime t = y" "MonthFromTime t = m - 1" "DateFromTime t = d"
  using assms unfolding civil_of_time by simp_all

lemma Day_of_days:
  assumes "0 \<le> r" "r < msPerDay"
  shows "Day (n * msPerDay + r) = n" "TimeWithinDay (n * msPerDay + r) = r"
proof -
  have "n * msPerDay + r = msPerDay * n + r" by simp
  from int_div_pos_eq[OF this assms] int_mod_pos_eq[OF this assms]
  show "Day (n * msPerDay + r) = n" "TimeWithinDay (n * msPerDay + r) = r"
    by (simp_all add: Day_def TimeWithinDay_def)
qed

lemma Day_next: "Day (t + msPerDay) = Day t + 1" "TimeWithinDay (t + msPerDay) = TimeWithinDay t"
  by (simp_all add: Day_def TimeWithinDay_def msPerDay_def)

lemma day_time_split: "Day t * msPerDay + TimeWithinDay t = t"
  by (simp add: Day_def TimeWithinDay_def)

lemma minus_notin_showNat: "CHR ''-'' \<notin> set (showNat n)"
  by (rule notin_showNat) simp

lemma minus_notin_showInt: "0 \<le> i \<Longrightarrow> CHR ''-'' \<notin> set (showInt i)"
  by (simp add: showInt_def minus_notin_showNat)

lemma minus_notin_pad: "0 \<le> i \<Longrightarrow> CHR ''-'' \<notin> set (padStart n (showInt i))"
  by (simp add: padStart_def minus_notin_showInt)

lemma replaceAll_absent: "c \<notin> set s \<Longrightarrow> replaceAll c [] s = s"
  by (induction s) (auto simp: replaceAll_def)

lemma replaceAll_append: "replaceAll c r (a @ b) = replaceAll c r a @ replaceAll c r b"
  by (simp add: replaceAll_def)

lemma formatDate_fields:
  assumes "civilOfDay (Day (LocalTime host t)) = (y, m, d)" "0 \<le> y"
  shows "formatDate host (DateObject (Some t))
           = showInt y @ padStart 2 (showInt m) @ padStart 2 (showInt d)"
proof -
  note f = time_fields[OF assms(1)]
  from civilOfDay_valid[OF assms(1)] have v: "1 \<le> m" "1 \<le> d" by simp_all
  have l: "localDateString host (Some t)
      = showInt y @ ''-'' @ padStart 2 (showInt m) @ ''-'' @ padStart 2 (showInt d)"
    by (simp add: localDateString_def Let_def getFullYear_def getMonth_def getDate_def f
        showNum_def plus1_def)
  have m: "CHR ''-'' \<notin> set (padStart 2 (showInt m))" using v(1) by (intro minus_notin_pad) simp
  have d: "CHR ''-'' \<notin> set (padStart 2 (showInt d))" using v(2) by (intro minus_notin_pad) simp
  show ?thesis
    unfolding formatDate_def Let_def dateInput.case l replaceAll_append
    using replaceAll_absent[OF minus_notin_showInt[OF assms(2)]] replaceAll_absent[OF m]
      replaceAll_absent[OF d]
    by (simp add: replaceAll_def)
qed

lemma formatDateTime_fields:
  assumes "civilOfDay (Day (LocalTime host t)) = (y, m, d)"
  shows "formatDateTime host (Some t) utc
           = showInt y @ padStart 2 (showInt m) @ padStart 2 (showInt d) @ ''T''
             @ padStart 2 (showInt (HourFromTime (LocalTime host t)))
             @ padStart 2 (showInt (MinFromTime (LocalTime host t)))
             @ padStart 2 (showInt (SecFromTime (LocalTime host t)))
             @ (if utc then ''Z'' else [])"
  using time_fields[OF assms]
  by (simp add: formatDateTime_def Let_def getFullYear_def getMonth_def getDate_def getHours_def
      getMinutes_def getSeconds_def showNum_def plus1_def)

lemma civil_date:
  assumes "day = MakeDay y (m - 1) d" "1 \<le> m" "m \<le> 12" "1 \<le> d" "d \<le> DaysInMonth y m"
  shows "civilOfDay day = (y, m, d)"
  unfolding assms(1) using assms(2-) by (rule civilOfDay_MakeDay)

lemma stamp_2024: "formatDateTime (hostAt 0) (Some 1704067200000) True = ''20240101T000000Z''"
proof -
  have "civilOfDay (Day (LocalTime (hostAt 0) 1704067200000)) = (2024, 1, 1)"
    by (rule civil_date)
      (simp_all add: LocalTime_def hostAt_def Day_def msPerDay_def MakeDay_def DayFromYear_def
        DaysInYear_def monthStart_def DaysInMonth_def)
  from formatDateTime_fields[OF this, of True] show ?thesis
    by (simp add: LocalTime_def hostAt_def HourFromTime_def MinFromTime_def SecFromTime_def
        showInt_def showNat.simps padStart_def)
qed

lemma digitOf_range: "digitOf c = Some v \<Longrightarrow> 0 \<le> v \<and> v \<le> 9"
  by (auto simp: digitOf_def split: if_splits)

lemma digitsVal_nonneg: "digitsVal cs = Some v \<Longrightarrow> 0 \<le> v"
proof (induction cs arbitrary: v)
  case Nil
  then show ?case by simp
next
  case (Cons c cs)
  then obtain x r where x: "digitOf c = Some x" and r: "digitsVal cs = Some r"
    and v: "v = x * 10 ^ length cs + r"
    by (auto split: option.splits)
  from digitOf_range[OF x] Cons.IH[OF r] show ?case unfolding v by simp
qed

lemma isoDate_parts:
  assumes "isoDate s = Some ((y, m, d), rest)"
  shows "10 \<le> length s" "rest = drop 10 s" "1 \<le> m" "m \<le> 12" "1 \<le> d" "d \<le> DaysInMonth y m"
    "0 \<le> y" "s ! 4 = CHR ''-''" "s ! 7 = CHR ''-''"
    "digitsVal (take 4 s) = Some y" "digitsVal (take 2 (drop 5 s)) = Some m"
    "digitsVal (take 2 (drop 8 s)) = Some d"
proof -
  from assms have a: "10 \<le> length s \<and> s ! 4 = CHR ''-'' \<and> s ! 7 = CHR ''-''"
    by (simp add: isoDate_def split: if_splits)
  with assms obtain y0 m0 d0 where p: "digitsVal (take 4 s) = Some y0"
    "digitsVal (take 2 (drop 5 s)) = Some m0" "digitsVal (take 2 (drop 8 s)) = Some d0"
    by (auto simp: isoDate_def split: option.splits if_splits)
  with assms a have e: "y0 = y" "m0 = m" "d0 = d" "rest = drop 10 s"
    and v: "1 \<le> m0 \<and> m0 \<le> 12 \<and> 1 \<le> d0 \<and> d0 \<le> DaysInMonth y0 m0"
    by (auto simp: isoDate_def split: if_splits)
  from a show "10 \<le> length s" "s ! 4 = CHR ''-''" "s ! 7 = CHR ''-''" by simp_all
  from e show "rest = drop 10 s" by simp
  from v e show "1 \<le> m" "m \<le> 12" "1 \<le> d" "d \<le> DaysInMonth y m" by simp_all
  from digitsVal_nonneg[OF p(1)] e show "0 \<le> y" by simp
  from p e show "digitsVal (take 4 s) = Some y" "digitsVal (take 2 (drop 5 s)) = Some m"
    "digitsVal (take 2 (drop 8 s)) = Some d" by simp_all
qed

lemma isoDate_append:
  assumes "isoDate s = Some ((y, m, d), [])"
  shows "isoDate (s @ r) = Some ((y, m, d), r)"
proof -
  note p = isoDate_parts[OF assms]
  from p(1,2) have l: "length s = 10" by simp
  have n: "(s @ r) ! 4 = s ! 4" "(s @ r) ! 7 = s ! 7" using l by (simp_all add: nth_append)
  show ?thesis
    using p(3-6) p(10-12) l by (simp add: isoDate_def n p(8,9))
qed

lemma midnight_Z: "isoTime ''00:00:00.000Z'' = Some (0, True)"
  by code_simp

lemma isoDateTime_midnight:
  assumes "isoDate s = Some ((y, m, d), [])"
  shows "isoDateTime (s @ ''T00:00:00.000Z'') = Some ((y, m, d), 0, True)"
  using isoDate_append[OF assms, of "''T00:00:00.000Z''"] midnight_Z
  by (simp add: isoDateTime_def)

lemma digitsVal_upper: "digitsVal cs = Some v \<Longrightarrow> v < 10 ^ length cs"
proof (induction cs arbitrary: v)
  case Nil
  then show ?case by simp
next
  case (Cons c cs)
  then obtain x r where x: "digitOf c = Some x" and r: "digitsVal cs = Some r"
    and v: "v = x * 10 ^ length cs + r"
    by (auto split: option.splits)
  from digitOf_range[OF x] have a: "x * 10 ^ length cs \<le> 9 * 10 ^ length cs"
    by (intro mult_right_mono) simp_all
  have b: "(10::int) ^ length (c # cs) = 10 * 10 ^ length cs" by simp
  from a Cons.IH[OF r] show ?case unfolding v b by linarith
qed

lemma MakeDay_range:
  assumes "0 \<le> y" "y \<le> 9999" "1 \<le> m" "m \<le> 12" "1 \<le> d" "d \<le> DaysInMonth y m"
  shows "- 719528 \<le> MakeDay y (m - 1) d" "MakeDay y (m - 1) d \<le> 2932897"
proof -
  define leap where "leap = DaysInYear y - 365"
  from within_year[OF assms(3-6) leap_def] leap_cases[of y]
  have w: "0 \<le> monthStart leap (m - 1) + d - 1" "monthStart leap (m - 1) + d - 1 < 366"
    by (auto simp: leap_def)
  have n: "MakeDay y (m - 1) d = DayFromYear y + (monthStart leap (m - 1) + d - 1)"
    using MakeDay_in_year[of "m - 1" y d] assms(3,4) by (simp add: leap_def)
  have "DayFromYear 0 \<le> DayFromYear y" using assms(1) by (rule DayFromYear_mono)
  moreover have "DayFromYear y \<le> DayFromYear 9999" using assms(2) by (rule DayFromYear_mono)
  moreover have "DayFromYear 0 = - 719528" "DayFromYear 9999 = 2932532"
    by (simp_all add: DayFromYear_def)
  ultimately show "- 719528 \<le> MakeDay y (m - 1) d" "MakeDay y (m - 1) d \<le> 2932897"
    using w unfolding n by simp_all
qed

lemma TimeClip_days:
  assumes "- 719528 \<le> n" "n \<le> 2932898"
  shows "TimeClip (n * msPerDay) = Some (n * msPerDay)"
  using assms by (simp add: TimeClip_def msPerDay_def abs_le_iff)

lemma MakeDay_date_Suc: "MakeDay y m (d + 1) = MakeDay y m d + 1"
  by (simp add: MakeDay_def Let_def)

lemma nextCivilDay_year:
  assumes "nextCivilDay (y, m, d) = (y', m', d')" "0 \<le> y"
  shows "0 \<le> y'"
  using assms by (auto simp: nextCivilDay_def split: if_splits)

lemma nextDayDate_string:
  assumes "isoDate s = Some ((y, m, d), [])"
  shows "nextDayDate host (DateString s) = Some ((MakeDay y (m - 1) d + 1) * msPerDay)"
proof -
  note p = isoDate_parts[OF assms]
  from p(1,2) have "length (take 4 s) = 4" by simp
  with digitsVal_upper[OF p(10)] have y: "y \<le> 9999" by simp
  define n where "n = MakeDay y (m - 1) d"
  note r = MakeDay_range[OF p(7) y p(3-6), folded n_def]
  have c: "civilOfDay (Day (n * msPerDay)) = (y, m, d)"
    using Day_of_days(1)[of 0 n] civilOfDay_MakeDay[OF p(3-6)]
    by (simp add: n_def msPerDay_def)
  have t0: "newDateOfString host (s @ ''T00:00:00.000Z'') = Some (n * msPerDay)"
    using TimeClip_days[of n] r
    by (simp add: newDateOfString_def isoDateTime_midnight[OF assms] MakeDate_def
        n_def[symmetric])
  have w: "TimeWithinDay (n * msPerDay) = 0"
    using Day_of_days(2)[of 0 n] by (simp add: msPerDay_def)
  have "setUTCDate (Some (d + 1)) (Some (n * msPerDay)) = Some ((n + 1) * msPerDay)"
    using TimeClip_days[of "n + 1"] r
    by (simp add: setUTCDate_def time_fields[OF c] MakeDay_date_Suc MakeDate_def w
        n_def[symmetric])
  then show ?thesis
    by (simp add: nextDayDate_def t0 Let_def getUTCDate_def time_fields[OF c] plus1_def
        n_def[symmetric])
qed

lemma leap_day_date: "isoDate ''2024-02-29'' = Some ((2024, 2, 29), [])"
  by code_simp

lemma new_year_date: "isoDate ''2024-12-31'' = Some ((2024, 12, 31), [])"
  by code_simp

lemma showInt_dates:
  "showInt 2023 = ''2023''" "showInt 2024 = ''2024''" "showInt 2025 = ''2025''"
  "showInt 3 = ''3''" "showInt 12 = ''12''" "showInt 29 = ''29''" "showInt 31 = ''31''"
  "showInt 19 = ''19''"
  by (simp_all add: showInt_def showNat.simps)

lemma showInt_digits: "showInt 0 = ''0''" "showInt 1 = ''1''" "showInt 2 = ''2''" "showInt 5 = ''5''"
  by (simp_all add: showInt_def showNat.simps)

lemma calendar_icon: "iconToCategory ''calendar'' = Category ''PERSONAL''"
  "iconToPriority ''calendar'' = 5"
  by code_simp+


section \<open>The end date of an all-day event\<close>

text \<open>
  For a date given as a string \<^verbatim>\<open>YYYY-MM-DD\<close>, in a process whose local time is at UTC or
  ahead of it by less than a day, the end date is the date that follows the start date in
  the calendar.
\<close>

lemma allDay_end_string_date:
  assumes s: "isoDate s = Some ((y, m, d), [])"
    and z: "0 \<le> tza host" "tza host < msPerDay"
    and e: "event_date event = DateString s" "event_time event = None \<or> event_time event = Some []"
    and n: "nextCivilDay (y, m, d) = (y', m', d')"
  shows "dateLines host event
           = [''DTSTART;VALUE=DATE:'' @ replaceAll (CHR ''-'') [] s,
              ''DTEND;VALUE=DATE:'' @ showInt y' @ padStart 2 (showInt m') @ padStart 2 (showInt d')]"
proof -
  note p = isoDate_parts[OF s]
  define k where "k = MakeDay y (m - 1) d"
  have "Day (LocalTime host ((k + 1) * msPerDay)) = k + 1"
    using Day_of_days(1)[OF z, of "k + 1"] by (simp add: LocalTime_def)
  moreover have "civilOfDay (k + 1) = (y', m', d')"
    using civilOfDay_next[of k] civilOfDay_MakeDay[OF p(3-6)] n by (simp add: k_def)
  ultimately have c: "civilOfDay (Day (LocalTime host ((k + 1) * msPerDay))) = (y', m', d')"
    by simp
  note f = formatDate_fields[OF c nextCivilDay_year[OF n p(7)]]
  have g: "formatDate host (DateString s) = replaceAll (CHR ''-'') [] s"
    by (simp add: formatDate_def)
  from e(2) show ?thesis
    by (elim disjE)
      (simp_all add: dateLines_def e(1) nextDayDate_string[OF s] f[unfolded k_def] g)
qed

lemma stamp_behind: "formatDateTime (hostAt (- 18000000)) (Some 1704067200000) True = ''20231231T190000Z''"
proof -
  have "civilOfDay (Day (LocalTime (hostAt (- 18000000)) 1704067200000)) = (2023, 12, 31)"
    by (rule civil_date)
      (simp_all add: LocalTime_def hostAt_def Day_def msPerDay_def MakeDay_def DayFromYear_def
        DaysInYear_def monthStart_def DaysInMonth_def)
  from formatDateTime_fields[OF this, of True] show ?thesis
    by (simp add: LocalTime_def hostAt_def HourFromTime_def MinFromTime_def SecFromTime_def
        showInt_dates showInt_digits padStart_def)
qed

lemma end_behind:
  "formatDate (hostAt (- 18000000))
     (DateObject (nextDayDate (hostAt (- 18000000)) (DateString ''2024-02-29''))) = ''20240229''"
proof -
  have n: "nextDayDate (hostAt (- 18000000)) (DateString ''2024-02-29'') = Some 1709251200000"
    unfolding nextDayDate_string[OF leap_day_date]
    by (simp add: MakeDay_def DayFromYear_def DaysInYear_def monthStart_def msPerDay_def)
  have "civilOfDay (Day (LocalTime (hostAt (- 18000000)) 1709251200000)) = (2024, 2, 29)"
    by (rule civil_date)
      (simp_all add: LocalTime_def hostAt_def Day_def msPerDay_def MakeDay_def DayFromYear_def
        DaysInYear_def monthStart_def DaysInMonth_def)
  from formatDate_fields[OF this] show ?thesis
    unfolding n by (simp add: showInt_dates showInt_digits padStart_def)
qed

text \<open>
  Claim C1 at the event date \<^verbatim>\<open>2024-02-29\<close>, given as a string, in a process five hours
  behind UTC: the next day is computed in UTC and formatted in local time, and the block
  carries the same date as start and as end.
\<close>

theorem allDay_end_behind_UTC:
  "generateEvent (hostAt (- 18000000)) defaultConfig 1704067200000
     (sampleEvent 1 ''Leap day'' ''2024-02-29'' None) ''0123456789abcdef''
   = [''BEGIN:VEVENT'', ''UID:1-0123456789abcdef@yatwa.app'', ''DTSTAMP:20231231T190000Z'',
      ''CREATED:20231231T190000Z'', ''LAST-MODIFIED:20231231T190000Z'',
      ''DTSTART;VALUE=DATE:20240229'', ''DTEND;VALUE=DATE:20240229'',
      ''SUMMARY:Leap day'', ''CATEGORIES:PERSONAL'', ''PRIORITY:5'', ''STATUS:CONFIRMED'',
      ''TRANSP:OPAQUE'', ''CLASS:PRIVATE'', ''SEQUENCE:0'',
      ''URL:http://localhost?hash=0123456789abcdef'', ''X-YATWA-ICON:calendar'',
      ''X-YATWA-ID:1'', ''END:VEVENT'']"
proof -
  have t: "escapeText ''Leap day'' = ''Leap day''"
    by (simp add: escapeText_def replaceAll_def substring_def BSL_def LF_def CR_def)
  have s: "formatDate (hostAt (- 18000000)) (DateString ''2024-02-29'') = ''20240229''"
    by (simp add: formatDate_def replaceAll_def)
  show ?thesis
    by (simp add: generateEvent_def dateLines_def sampleEvent_def Let_def stamp_behind end_behind
        s t calendar_icon showInt_digits truthy_def categoryText_def defaultConfig_def tpl_def)
qed

text \<open>At UTC the two dates named by the specification come out as it says.\<close>

lemma allDay_end_at_UTC:
  "dateLines (hostAt 0) (sampleEvent 1 ''Leap day'' ''2024-02-29'' None)
     = [''DTSTART;VALUE=DATE:20240229'', ''DTEND;VALUE=DATE:20240301'']"
  "dateLines (hostAt 0) (sampleEvent 1 ''New year'' ''2024-12-31'' None)
     = [''DTSTART;VALUE=DATE:20241231'', ''DTEND;VALUE=DATE:20250101'']"
proof -
  have a: "nextCivilDay (2024, 2, 29) = (2024, 3, 1)"
    by (simp add: nextCivilDay_def DaysInMonth_def DaysInYear_def)
  have b: "nextCivilDay (2024, 12, 31) = (2025, 1, 1)"
    by (simp add: nextCivilDay_def DaysInMonth_def DaysInYear_def)
  show "dateLines (hostAt 0) (sampleEvent 1 ''Leap day'' ''2024-02-29'' None)
     = [''DTSTART;VALUE=DATE:20240229'', ''DTEND;VALUE=DATE:20240301'']"
    using allDay_end_string_date[OF leap_day_date _ _ _ _ a, of "hostAt 0"
        "sampleEvent 1 ''Leap day'' ''2024-02-29'' None"]
    by (simp add: hostAt_def sampleEvent_def msPerDay_def replaceAll_def showInt_dates
        showInt_digits padStart_def)
  show "dateLines (hostAt 0) (sampleEvent 1 ''New year'' ''2024-12-31'' None)
     = [''DTSTART;VALUE=DATE:20241231'', ''DTEND;VALUE=DATE:20250101'']"
    using allDay_end_string_date[OF new_year_date _ _ _ _ b, of "hostAt 0"
        "sampleEvent 1 ''New year'' ''2024-12-31'' None"]
    by (simp add: hostAt_def sampleEvent_def msPerDay_def replaceAll_def showInt_dates
        showInt_digits padStart_def)
qed

lemma leap_day_lines:
  "formatDate (hostAt 0) (DateString ''2024-02-29'') = ''20240229''"
  "formatDate (hostAt 0) (DateObject (nextDayDate (hostAt 0) (DateString ''2024-02-29''))) = ''20240301''"
  using allDay_end_at_UTC(1)
  by (simp_all add: dateLines_def sampleEvent_def formatDate_def replaceAll_def)


section \<open>The next event\<close>

subsection \<open>Strings of digits in the order of their code units\<close>

text \<open>
  Two strings of digits of one length are in the order of their numbers; so are two
  strings made of such blocks with one separator between them.
\<close>

lemma digitOf_code: "digitOf c = Some x \<Longrightarrow> of_char c = (48::nat) + nat x \<and> 0 \<le> x"
  by (auto simp: digitOf_def split: if_splits)

lemma digit_order:
  assumes "digitOf c = Some x" "digitOf c' = Some x'"
  shows "c < c' \<longleftrightarrow> x < x'" "c = c' \<longleftrightarrow> x = x'"
proof -
  from digitOf_code[OF assms(1)] digitOf_code[OF assms(2)]
  have a: "of_char c = (48::nat) + nat x" "of_char c' = (48::nat) + nat x'" "0 \<le> x" "0 \<le> x'"
    by simp_all
  show "c < c' \<longleftrightarrow> x < x'" using a by (auto simp: less_char_def)
  have "c = c' \<longleftrightarrow> (of_char c :: nat) = of_char c'" by simp
  then show "c = c' \<longleftrightarrow> x = x'" using a by auto
qed

lemma digits_order:
  assumes "length xs = length ys" "digitsVal xs = Some u" "digitsVal ys = Some v"
  shows "(xs < ys \<longleftrightarrow> u < v) \<and> (xs = ys \<longleftrightarrow> u = v)"
  using assms
proof (induction xs ys arbitrary: u v rule: list_induct2)
  case Nil
  then show ?case by simp
next
  case (Cons c cs e es)
  from Cons.prems(1) obtain x r where x: "digitOf c = Some x" and r: "digitsVal cs = Some r"
    and u: "u = x * 10 ^ length cs + r"
    by (auto split: option.splits)
  from Cons.prems(2) obtain y q where y: "digitOf e = Some y" and q: "digitsVal es = Some q"
    and v: "v = y * 10 ^ length es + q"
    by (auto split: option.splits)
  define P where "P = (10::int) ^ length cs"
  have P: "10 ^ length es = P" "0 < P" using Cons.hyps by (simp_all add: P_def)
  have b: "0 \<le> r" "r < P" "0 \<le> q" "q < P"
    using digitsVal_nonneg[OF r] digitsVal_upper[OF r] digitsVal_nonneg[OF q] digitsVal_upper[OF q]
    by (simp_all add: P_def Cons.hyps)
  have s: "x * P + r < y * P + q" if "x < y" "r < P" "0 \<le> q" for x y r q :: int
  proof -
    from that(1) have "(x + 1) * P \<le> y * P" using P(2) by (intro mult_right_mono) simp_all
    with that(2-) show ?thesis by (simp add: algebra_simps)
  qed
  have lt: "u < v \<longleftrightarrow> x < y \<or> (x = y \<and> r < q)"
    unfolding u v P P_def[symmetric]
    using s[of x y r q] s[of y x q r] b by (cases x y rule: linorder_cases) auto
  have eq: "u = v \<longleftrightarrow> x = y \<and> r = q"
    unfolding u v P P_def[symmetric]
    using s[of x y r q] s[of y x q r] b by (cases x y rule: linorder_cases) auto
  from digit_order[OF x y] Cons.IH[OF r q] lt eq show ?case by auto
qed

lemma less_append_blocks:
  assumes "length xs = length ys"
  shows "xs @ us < ys @ vs \<longleftrightarrow> xs < ys \<or> (xs = ys \<and> us < vs)"
  using assms by (induction xs ys rule: list_induct2) auto

lemma three_blocks_less:
  fixes c :: char
  assumes "length x1 = length y1" "length x2 = length y2"
  shows "x1 @ c # x2 @ c # x3 < y1 @ c # y2 @ c # y3
           \<longleftrightarrow> x1 < y1 \<or> (x1 = y1 \<and> (x2 < y2 \<or> (x2 = y2 \<and> x3 < y3)))"
  by (simp add: less_append_blocks[OF assms(1)] less_append_blocks[OF assms(2)])

lemma three_blocks_eq:
  assumes "length x1 = length y1" "length x2 = length y2"
  shows "x1 @ c # x2 @ c # x3 = y1 @ c # y2 @ c # y3 \<longleftrightarrow> x1 = y1 \<and> x2 = y2 \<and> x3 = y3"
  using assms by auto

lemma date_blocks:
  assumes "length s = 10"
  shows "s = take 4 s @ s ! 4 # take 2 (drop 5 s) @ s ! 7 # take 2 (drop 8 s)"
proof -
  from assms obtain a b c d e f g h i j where "s = [a, b, c, d, e, f, g, h, i, j]"
    by (auto simp: eval_nat_numeral length_Suc_conv)
  then show ?thesis by simp
qed

lemma time_blocks:
  assumes "length s = 8"
  shows "s = take 2 s @ s ! 2 # take 2 (drop 3 s) @ s ! 5 # take 2 (drop 6 s)"
proof -
  from assms obtain a b c d e f g h where "s = [a, b, c, d, e, f, g, h]"
    by (auto simp: eval_nat_numeral length_Suc_conv)
  then show ?thesis by simp
qed

subsection \<open>Dates and times in the order of their strings\<close>

text \<open>
  Two strings \<^verbatim>\<open>YYYY-MM-DD\<close> are in the order of the dates they name, and two strings
  \<^verbatim>\<open>HH:MM:SS\<close> in the order of their times of day.
\<close>

lemma calendarDate_parts:
  assumes "calendarDate s = Some (y, m, d)"
  shows "length s = 10" "s ! 4 = CHR ''-''" "s ! 7 = CHR ''-''"
    "digitsVal (take 4 s) = Some y" "digitsVal (take 2 (drop 5 s)) = Some m"
    "digitsVal (take 2 (drop 8 s)) = Some d"
proof -
  from assms have i: "isoDate s = Some ((y, m, d), [])"
    by (auto simp: calendarDate_def split: option.splits if_splits)
  note p = isoDate_parts[OF i]
  from p(1,2) show "length s = 10" by simp
  from p show "s ! 4 = CHR ''-''" "s ! 7 = CHR ''-''"
    "digitsVal (take 4 s) = Some y" "digitsVal (take 2 (drop 5 s)) = Some m"
    "digitsVal (take 2 (drop 8 s)) = Some d" by simp_all
qed

lemma calendarDate_order:
  assumes "calendarDate a = Some p" "calendarDate b = Some q"
  shows "a < b \<longleftrightarrow> dateBefore p q" "a = b \<longleftrightarrow> p = q"
proof -
  obtain y m d where p: "p = (y, m, d)" by (cases p) auto
  obtain y' m' d' where q: "q = (y', m', d')" by (cases q) auto
  note pa = calendarDate_parts[OF assms(1)[unfolded p]]
  note pb = calendarDate_parts[OF assms(2)[unfolded q]]
  have la: "length (take 4 a) = length (take 4 b)"
    "length (take 2 (drop 5 a)) = length (take 2 (drop 5 b))"
    "length (take 2 (drop 8 a)) = length (take 2 (drop 8 b))"
    using pa(1) pb(1) by simp_all
  note o = digits_order[OF la(1) pa(4) pb(4)] digits_order[OF la(2) pa(5) pb(5)]
    digits_order[OF la(3) pa(6) pb(6)]
  have da: "a = take 4 a @ CHR ''-'' # take 2 (drop 5 a) @ CHR ''-'' # take 2 (drop 8 a)"
    using date_blocks[OF pa(1)] pa(2,3) by simp
  have db: "b = take 4 b @ CHR ''-'' # take 2 (drop 5 b) @ CHR ''-'' # take 2 (drop 8 b)"
    using date_blocks[OF pb(1)] pb(2,3) by simp
  have "a < b \<longleftrightarrow> take 4 a < take 4 b \<or> (take 4 a = take 4 b
      \<and> (take 2 (drop 5 a) < take 2 (drop 5 b) \<or> (take 2 (drop 5 a) = take 2 (drop 5 b)
           \<and> take 2 (drop 8 a) < take 2 (drop 8 b))))"
    by (subst da, subst db) (rule three_blocks_less[OF la(1,2)])
  with o show "a < b \<longleftrightarrow> dateBefore p q" by (simp add: p q dateBefore_def)
  have "a = b \<longleftrightarrow> take 4 a = take 4 b \<and> take 2 (drop 5 a) = take 2 (drop 5 b)
      \<and> take 2 (drop 8 a) = take 2 (drop 8 b)"
    by (subst da, subst db) (rule three_blocks_eq[OF la(1,2)])
  with o show "a = b \<longleftrightarrow> p = q" by (simp add: p q)
qed

lemma timeOfDay_parts:
  assumes "timeOfDay s = Some t"
  shows "\<exists>h mi sec. length s = 8 \<and> s ! 2 = CHR '':'' \<and> s ! 5 = CHR '':''
           \<and> digitsVal (take 2 s) = Some h \<and> digitsVal (take 2 (drop 3 s)) = Some mi
           \<and> digitsVal (take 2 (drop 6 s)) = Some sec
           \<and> 0 \<le> h \<and> 0 \<le> mi \<and> mi \<le> 59 \<and> 0 \<le> sec \<and> sec \<le> 59
           \<and> t = h * 3600 + mi * 60 + sec"
proof -
  from assms have a: "length s = 8 \<and> s ! 2 = CHR '':'' \<and> s ! 5 = CHR '':''"
    by (simp add: timeOfDay_def split: if_splits)
  with assms obtain h mi sec where p: "digitsVal (take 2 s) = Some h"
    "digitsVal (take 2 (drop 3 s)) = Some mi" "digitsVal (take 2 (drop 6 s)) = Some sec"
    by (auto simp: timeOfDay_def split: option.splits if_splits)
  with assms a have "mi \<le> 59 \<and> sec \<le> 59 \<and> t = h * 3600 + mi * 60 + sec"
    by (auto simp: timeOfDay_def split: if_splits)
  with a p digitsVal_nonneg[OF p(1)] digitsVal_nonneg[OF p(2)] digitsVal_nonneg[OF p(3)]
  show ?thesis by blast
qed

lemma clock_less:
  fixes h mi sec h' mi' sec' :: int
  assumes "0 \<le> mi" "mi \<le> 59" "0 \<le> sec" "sec \<le> 59" "0 \<le> mi'" "mi' \<le> 59" "0 \<le> sec'" "sec' \<le> 59"
  shows "h * 3600 + mi * 60 + sec < h' * 3600 + mi' * 60 + sec'
           \<longleftrightarrow> h < h' \<or> (h = h' \<and> (mi < mi' \<or> (mi = mi' \<and> sec < sec')))"
  using assms by auto

lemma clock_eq:
  fixes h mi sec h' mi' sec' :: int
  assumes "0 \<le> mi" "mi \<le> 59" "0 \<le> sec" "sec \<le> 59" "0 \<le> mi'" "mi' \<le> 59" "0 \<le> sec'" "sec' \<le> 59"
  shows "h * 3600 + mi * 60 + sec = h' * 3600 + mi' * 60 + sec' \<longleftrightarrow> h = h' \<and> mi = mi' \<and> sec = sec'"
  using clock_less[OF assms, of h h'] clock_less[OF assms(5-8) assms(1-4), of h' h]
  by (cases h h' rule: linorder_cases; cases mi mi' rule: linorder_cases;
      cases sec sec' rule: linorder_cases) simp_all

lemma timeOfDay_order:
  assumes "timeOfDay a = Some t" "timeOfDay b = Some t'"
  shows "a < b \<longleftrightarrow> t < t'" "a = b \<longleftrightarrow> t = t'"
proof -
  from timeOfDay_parts[OF assms(1)] obtain h mi sec where
    pa: "length a = 8" "a ! 2 = CHR '':''" "a ! 5 = CHR '':''"
      "digitsVal (take 2 a) = Some h" "digitsVal (take 2 (drop 3 a)) = Some mi"
      "digitsVal (take 2 (drop 6 a)) = Some sec"
    and ra: "0 \<le> mi" "mi \<le> 59" "0 \<le> sec" "sec \<le> 59"
    and t: "t = h * 3600 + mi * 60 + sec"
    by blast
  from timeOfDay_parts[OF assms(2)] obtain h' mi' sec' where
    pb: "length b = 8" "b ! 2 = CHR '':''" "b ! 5 = CHR '':''"
      "digitsVal (take 2 b) = Some h'" "digitsVal (take 2 (drop 3 b)) = Some mi'"
      "digitsVal (take 2 (drop 6 b)) = Some sec'"
    and rb: "0 \<le> mi'" "mi' \<le> 59" "0 \<le> sec'" "sec' \<le> 59"
    and t': "t' = h' * 3600 + mi' * 60 + sec'"
    by blast
  have la: "length (take 2 a) = length (take 2 b)"
    "length (take 2 (drop 3 a)) = length (take 2 (drop 3 b))"
    "length (take 2 (drop 6 a)) = length (take 2 (drop 6 b))"
    using pa(1) pb(1) by simp_all
  note o = digits_order[OF la(1) pa(4) pb(4)] digits_order[OF la(2) pa(5) pb(5)]
    digits_order[OF la(3) pa(6) pb(6)]
  note c = clock_less[OF ra rb, of h h'] clock_eq[OF ra rb, of h h']
  have da: "a = take 2 a @ CHR '':'' # take 2 (drop 3 a) @ CHR '':'' # take 2 (drop 6 a)"
    using time_blocks[OF pa(1)] pa(2,3) by simp
  have db: "b = take 2 b @ CHR '':'' # take 2 (drop 3 b) @ CHR '':'' # take 2 (drop 6 b)"
    using time_blocks[OF pb(1)] pb(2,3) by simp
  have "a < b \<longleftrightarrow> take 2 a < take 2 b \<or> (take 2 a = take 2 b
      \<and> (take 2 (drop 3 a) < take 2 (drop 3 b) \<or> (take 2 (drop 3 a) = take 2 (drop 3 b)
           \<and> take 2 (drop 6 a) < take 2 (drop 6 b))))"
    by (subst da, subst db) (rule three_blocks_less[OF la(1,2)])
  with o c(1) show "a < b \<longleftrightarrow> t < t'" unfolding t t' by simp
  have "a = b \<longleftrightarrow> take 2 a = take 2 b \<and> take 2 (drop 3 a) = take 2 (drop 3 b)
      \<and> take 2 (drop 6 a) = take 2 (drop 6 b)"
    by (subst da, subst db) (rule three_blocks_eq[OF la(1,2)])
  with o c(2) show "a = b \<longleftrightarrow> t = t'" unfolding t t' by simp
qed

subsection \<open>The comparison of two events\<close>

text \<open>
  On events whose date and time are in the two formats the callback of \<^verbatim>\<open>sort\<close> decides
  the order by date and then by time of day, whatever the collation of the engine.
\<close>

lemma startOf_parts:
  assumes "startOf e \<noteq> None"
  shows "\<exists>ymd sec. calendarDate (dateOf e) = Some ymd \<and> timeOfDay (timeOf e) = Some sec
           \<and> startOf e = Some (ymd, sec)"
  using assms by (auto simp: startOf_def split: option.splits)

lemma localeCompare_dates:
  assumes "calendarDate a = Some p" "calendarDate b = Some q"
  shows "localeCompare host a b = (if dateBefore p q then - 1 else if p = q then 0 else 1)"
  using calendarDate_order[OF assms] assms by (simp add: localeCompare_def)

lemma localeCompare_times:
  assumes "timeOfDay a = Some t" "timeOfDay b = Some t'"
  shows "localeCompare host a b = (if t < t' then - 1 else if t = t' then 0 else 1)"
  using timeOfDay_order[OF assms] assms by (simp add: localeCompare_def)

text \<open>Outside the two formats the order is the engine's, as for times without a leading zero.\<close>

lemma localeCompare_engine:
  "localeCompare host ''10:00'' ''1:00'' = collation host ''10:00'' ''1:00''"
  by (simp add: localeCompare_def timeOfDay_def calendarDate_def isoDate_def)

lemma dateBefore_irrefl: "\<not> dateBefore p p"
  by (cases p) (simp add: dateBefore_def)

lemma dateBefore_trans: "dateBefore p q \<Longrightarrow> dateBefore q r \<Longrightarrow> dateBefore p r"
  by (cases p, cases q, cases r) (auto simp: dateBefore_def)

lemma dateBefore_total: "dateBefore p q \<or> p = q \<or> dateBefore q p"
  by (cases p, cases q) (auto simp: dateBefore_def)

lemma compareEvents_le:
  assumes "startOf a \<noteq> None" "startOf b \<noteq> None"
  shows "compareEvents host a b \<le> 0 \<longleftrightarrow> notLater a b"
proof -
  from startOf_parts[OF assms(1)] obtain da ta where
    a: "calendarDate (dateOf a) = Some da" "timeOfDay (timeOf a) = Some ta"
      "startOf a = Some (da, ta)" by blast
  from startOf_parts[OF assms(2)] obtain db tb where
    b: "calendarDate (dateOf b) = Some db" "timeOfDay (timeOf b) = Some tb"
      "startOf b = Some (db, tb)" by blast
  show ?thesis
    using dateBefore_irrefl[of da]
    by (auto simp: compareEvents_def Let_def notLater_def a(3) b(3)
        localeCompare_dates[OF a(1) b(1)] localeCompare_times[OF a(2) b(2)])
qed

lemma earlier_iff:
  assumes "startOf a \<noteq> None" "startOf b \<noteq> None"
  shows "earlier a b \<longleftrightarrow> \<not> notLater b a"
proof -
  from assms obtain da ta db tb where s: "startOf a = Some (da, ta)" "startOf b = Some (db, tb)"
    by auto
  show ?thesis
    using dateBefore_total[of da db] dateBefore_irrefl[of da] dateBefore_trans[of da db da]
    by (auto simp: earlier_def notLater_def s)
qed

lemma notLater_trans: "notLater a b \<Longrightarrow> notLater b c \<Longrightarrow> notLater a c"
  by (auto simp: notLater_def split: option.splits dest: dateBefore_trans)

lemma earlier_notLater: "earlier a b \<Longrightarrow> notLater a b"
  by (auto simp: earlier_def notLater_def split: option.splits)

subsection \<open>The first element of the sorted list\<close>

lemma insortBy_hd:
  "hd (insortBy cmp x ys) = (if ys = [] then x else if cmp x (hd ys) \<le> 0 then x else hd ys)"
  by (cases ys) simp_all

lemma insortBy_not_Nil: "insortBy cmp x ys \<noteq> []"
  by (cases ys) simp_all

lemma sortBy_Nil_iff: "sortBy cmp xs = [] \<longleftrightarrow> xs = []"
  by (cases xs) (simp_all add: insortBy_not_Nil)

lemma sortBy_first:
  assumes "xs \<noteq> []" "\<forall>e\<in>set xs. startOf e \<noteq> None"
  shows "\<exists>pre r post. xs = pre @ r # post \<and> hd (sortBy (compareEvents host) xs) = r
           \<and> (\<forall>e\<in>set pre. earlier r e) \<and> (\<forall>e\<in>set post. notLater r e)"
  using assms
proof (induction xs)
  case Nil
  then show ?case by simp
next
  case (Cons x xs)
  show ?case
  proof (cases "xs = []")
    case True
    then have "x # xs = [] @ x # [] \<and> hd (sortBy (compareEvents host) (x # xs)) = x" by simp
    then show ?thesis by fastforce
  next
    case False
    from Cons.prems(2) have w: "startOf x \<noteq> None" "\<forall>e\<in>set xs. startOf e \<noteq> None" by simp_all
    from Cons.IH[OF False w(2)] obtain pre r post where
      d: "xs = pre @ r # post" and h: "hd (sortBy (compareEvents host) xs) = r"
      and p: "\<forall>e\<in>set pre. earlier r e" and q: "\<forall>e\<in>set post. notLater r e"
      by blast
    from d w(2) have wr: "startOf r \<noteq> None" by simp
    have ne: "sortBy (compareEvents host) xs \<noteq> []" using False by (simp add: sortBy_Nil_iff)
    show ?thesis
    proof (cases "notLater x r")
      case True
      then have "hd (sortBy (compareEvents host) (x # xs)) = x"
        using ne h by (simp add: insortBy_hd compareEvents_le[OF w(1) wr])
      moreover have "\<forall>e\<in>set xs. notLater x e"
        using d p q True notLater_trans[of x r] earlier_notLater[of r] by auto
      ultimately have "x # xs = [] @ x # xs \<and> hd (sortBy (compareEvents host) (x # xs)) = x
          \<and> (\<forall>e\<in>set []. earlier x e) \<and> (\<forall>e\<in>set xs. notLater x e)" by simp
      then show ?thesis by blast
    next
      case False
      then have "hd (sortBy (compareEvents host) (x # xs)) = r"
        using ne h by (simp add: insortBy_hd compareEvents_le[OF w(1) wr])
      moreover have "earlier r x" using False by (simp add: earlier_iff[OF wr w(1)])
      ultimately have "x # xs = (x # pre) @ r # post
          \<and> hd (sortBy (compareEvents host) (x # xs)) = r
          \<and> (\<forall>e\<in>set (x # pre). earlier r e) \<and> (\<forall>e\<in>set post. notLater r e)"
        using d p q by simp
      then show ?thesis by blast
    qed
  qed
qed

subsection \<open>The statistics\<close>

lemma dateOf_Inr: "eventDateString e = Inr s \<Longrightarrow> dateOf e = s"
  by (simp add: dateOf_def)

lemma filterUpcoming_Inr:
  "filterUpcoming today es = Inr r \<Longrightarrow> r = filter (\<lambda>e. today \<le> dateOf e) es"
proof (induction es arbitrary: r)
  case Nil
  then show ?case by simp
next
  case (Cons e es)
  then show ?case
    by (auto split: sum.splits if_splits simp: dateOf_Inr)
qed

lemma eventDateString_valid:
  "event_date e \<noteq> DateObject None \<Longrightarrow> \<exists>s. eventDateString e = Inr s"
  by (cases "event_date e") (auto simp: eventDateString_def toISOString_def split: option.splits)

lemma filterUpcoming_returns:
  "\<forall>e\<in>set es. event_date e \<noteq> DateObject None \<Longrightarrow> \<exists>r. filterUpcoming today es = Inr r"
proof (induction es)
  case Nil
  then show ?case by simp
next
  case (Cons e es)
  then obtain r where "filterUpcoming today es = Inr r" by auto
  moreover from Cons.prems obtain s where "eventDateString e = Inr s"
    using eventDateString_valid[of e] by auto
  ultimately show ?case by simp
qed

lemma nextEvent_case: "(case xs of [] \<Rightarrow> None | e # es \<Rightarrow> Some e) = (if xs = [] then None else Some (hd xs))"
  by (cases xs) simp_all

text \<open>
  Claim C4 as amended. Let no event carry an Invalid Date, and let every upcoming event
  have a date written \<^verbatim>\<open>YYYY-MM-DD\<close> and a time that is absent or written \<^verbatim>\<open>HH:MM:SS\<close>. Then
  \<^const>\<open>generateStats\<close> returns; with no upcoming event \<^verbatim>\<open>nextEvent\<close> is \<^verbatim>\<open>null\<close>; otherwise
  it is an upcoming event \<open>r\<close> that no upcoming event precedes in the order by calendar date
  and then by time of day (no time counting as midnight), and among the events that tie
  with it the first of the input: every upcoming event before \<open>r\<close> in the input starts
  strictly later than \<open>r\<close>.
\<close>

theorem generateStats_nextEvent:
  assumes "\<forall>e\<in>set events. event_date e \<noteq> DateObject None"
    and "\<forall>e\<in>set (upcomingOf now events). startOf e \<noteq> None"
  shows "\<exists>stats. generateStats host now events = Inr stats
           \<and> (upcomingOf now events = [] \<longrightarrow> nextEvent stats = None)
           \<and> (upcomingOf now events \<noteq> [] \<longrightarrow>
                (\<exists>pre r post. upcomingOf now events = pre @ r # post
                   \<and> nextEvent stats = Some r
                   \<and> (\<forall>e\<in>set pre. earlier r e) \<and> (\<forall>e\<in>set post. notLater r e)))"
proof -
  from filterUpcoming_returns[OF assms(1)] obtain up where
    f: "filterUpcoming (datePart (isoString now)) events = Inr up" by blast
  from filterUpcoming_Inr[OF f] have u: "up = upcomingOf now events" by (simp add: upcomingOf_def)
  let ?stats = "\<lparr>totalEvents = length events, upcomingEvents = length up,
      eventsByCategory = foldl (\<lambda>m event. countCategory (categoryText host (iconToCategory (icon event))) m) [] events,
      nextEvent = (if sortBy (compareEvents host) up = [] then None
                   else Some (hd (sortBy (compareEvents host) up)))\<rparr>"
  have g: "generateStats host now events = Inr ?stats"
    by (simp add: generateStats_def Let_def f nextEvent_case)
  have a: "up = [] \<longrightarrow> nextEvent ?stats = None" by simp
  have b: "up \<noteq> [] \<longrightarrow> (\<exists>pre r post. up = pre @ r # post \<and> nextEvent ?stats = Some r
             \<and> (\<forall>e\<in>set pre. earlier r e) \<and> (\<forall>e\<in>set post. notLater r e))"
  proof
    assume n: "up \<noteq> []"
    from sortBy_first[OF n assms(2)[folded u], of host] obtain pre r post where
      "up = pre @ r # post" "hd (sortBy (compareEvents host) up) = r"
      "\<forall>e\<in>set pre. earlier r e" "\<forall>e\<in>set post. notLater r e" by blast
    moreover have "sortBy (compareEvents host) up \<noteq> []" using n by (simp add: sortBy_Nil_iff)
    ultimately show "\<exists>pre r post. up = pre @ r # post \<and> nextEvent ?stats = Some r
             \<and> (\<forall>e\<in>set pre. earlier r e) \<and> (\<forall>e\<in>set post. notLater r e)"
      by (intro exI[of _ pre] exI[of _ r] exI[of _ post]) simp
  qed
  from g a b show ?thesis unfolding u by blast
qed

lemma today_2024: "datePart (isoString 1704067200000) = ''2024-01-01''"
  by code_simp

lemma march_10: "calendarDate ''2024-03-10'' = Some (2024, 3, 10)"
  by code_simp

lemma sample_times:
  "timeOfDay ''00:00:00'' = Some 0" "timeOfDay ''09:00:00'' = Some 32400"
  "timeOfDay ''17:00:00'' = Some 61200"
  by code_simp+

text \<open>
  Against claim C4: an event timed \<^verbatim>\<open>00:00:00\<close> ties with an all-day event of the same
  date, and the stable sort keeps the order of the input: here the timed event is the
  next event although an all-day event of that date is upcoming.
\<close>

theorem nextEvent_midnight_tie:
  "event_time (sampleEvent 1 ''Midnight call'' ''2024-03-10'' (Some ''00:00:00'')) = Some ''00:00:00''
   \<and> event_time (sampleEvent 2 ''Holiday'' ''2024-03-10'' None) = None
   \<and> generateStats (hostAt 0) 1704067200000
         [sampleEvent 1 ''Midnight call'' ''2024-03-10'' (Some ''00:00:00''),
          sampleEvent 2 ''Holiday'' ''2024-03-10'' None]
       = Inr \<lparr>totalEvents = 2, upcomingEvents = 2, eventsByCategory = [(''PERSONAL'', 2)],
               nextEvent = Some (sampleEvent 1 ''Midnight call'' ''2024-03-10'' (Some ''00:00:00''))\<rparr>"
  by code_simp

text \<open>The three events of the specification: all-day, 09:00 and 17:00 on one date.\<close>

theorem generateStats_nextEvent_witness:
  "map_sum id nextEvent (generateStats (hostAt 0) 1704067200000
     [sampleEvent 1 ''Dinner'' ''2024-03-10'' (Some ''17:00:00''),
      sampleEvent 2 ''Breakfast'' ''2024-03-10'' (Some ''09:00:00''),
      sampleEvent 3 ''Holiday'' ''2024-03-10'' None])
   = Inr (Some (sampleEvent 3 ''Holiday'' ''2024-03-10'' None))"
proof -
  let ?a = "sampleEvent 1 ''Dinner'' ''2024-03-10'' (Some ''17:00:00'')"
  let ?b = "sampleEvent 2 ''Breakfast'' ''2024-03-10'' (Some ''09:00:00'')"
  let ?c = "sampleEvent 3 ''Holiday'' ''2024-03-10'' None"
  have h: "\<forall>e\<in>set [?a, ?b, ?c]. event_date e \<noteq> DateObject None"
    by (simp add: sampleEvent_def)
  have d: "dateOf ?a = ''2024-03-10''" "dateOf ?b = ''2024-03-10''" "dateOf ?c = ''2024-03-10''"
    by (simp_all add: dateOf_def eventDateString_def sampleEvent_def)
  have t: "timeOf ?a = ''17:00:00''" "timeOf ?b = ''09:00:00''" "timeOf ?c = ''00:00:00''"
    by (simp_all add: timeOf_def sampleEvent_def)
  have s: "startOf ?a = Some ((2024, 3, 10), 61200)" "startOf ?b = Some ((2024, 3, 10), 32400)"
    "startOf ?c = Some ((2024, 3, 10), 0)"
    by (simp_all add: startOf_def d t march_10 sample_times)
  have u: "upcomingOf 1704067200000 [?a, ?b, ?c] = [?a, ?b, ?c]"
    by (simp add: upcomingOf_def today_2024 d)
  have w: "\<forall>e\<in>set (upcomingOf 1704067200000 [?a, ?b, ?c]). startOf e \<noteq> None"
    unfolding u by (simp add: s)
  have ab: "\<not> notLater ?a ?b" and ac: "\<not> notLater ?a ?c" and bc: "\<not> notLater ?b ?c"
    by (simp_all add: notLater_def s dateBefore_def)
  from generateStats_nextEvent[OF h w, of "hostAt 0"] obtain stats pre r post where
    g: "generateStats (hostAt 0) 1704067200000 [?a, ?b, ?c] = Inr stats"
    and e: "[?a, ?b, ?c] = pre @ r # post" and n: "nextEvent stats = Some r"
    and q: "\<forall>e\<in>set post. notLater r e"
    unfolding u by blast
  from e have "(pre = [] \<and> r = ?a \<and> post = [?b, ?c]) \<or> (pre = [?a] \<and> r = ?b \<and> post = [?c])
      \<or> (pre = [?a, ?b] \<and> r = ?c \<and> post = [])"
    by (auto simp: Cons_eq_append_conv)
  with q ab bc have "r = ?c" by auto
  with g n show ?thesis by simp
qed


section \<open>Generated documents and the validator\<close>

lemma includesStr_prefix: "prefix p s \<Longrightarrow> includesStr p s"
  by (cases s) simp_all

lemma includesStr_append_right: "includesStr p b \<Longrightarrow> includesStr p (a @ b)"
proof (induction a)
  case Nil
  then show ?case by simp
next
  case (Cons c a)
  then show ?case by simp
qed

lemma includesStr_append_left: "includesStr p a \<Longrightarrow> includesStr p (a @ b)"
proof (induction a)
  case Nil
  then show ?case by (cases b) simp_all
next
  case (Cons c a)
  from Cons.prems have "prefix p (c # a) \<or> includesStr p a" by simp
  then show ?case
  proof
    assume "prefix p (c # a)"
    then have "prefix p ((c # a) @ b)" by (rule prefix_prefix)
    then show ?thesis by simp
  next
    assume "includesStr p a"
    from Cons.IH[OF this] show ?thesis by simp
  qed
qed

lemma includesStr_join:
  assumes "l \<in> set ls" "includesStr p l"
  shows "includesStr p (join sep ls)"
  using assms(1)
proof (induction ls rule: induct_list012)
  case 1
  then show ?case by simp
next
  case (2 x)
  with assms(2) show ?case by simp
next
  case (3 x y zs)
  show ?case
  proof (cases "l = x")
    case True
    with assms(2) show ?thesis by (simp add: includesStr_append_left)
  next
    case False
    with 3 have "includesStr p (join sep (y # zs))" by simp
    then show ?thesis by (simp add: includesStr_append_right)
  qed
qed

lemma includesStr_line:
  assumes "l \<in> set (calendarLines host config clock events userHash)" "includesStr p l"
  shows "includesStr p (generateCalendar host config clock events userHash)"
  unfolding generateCalendar_def
  by (rule includesStr_append_left[OF includesStr_join[OF assms]])

lemma envelope_present:
  "includesStr ''BEGIN:VCALENDAR'' (generateCalendar host config clock events userHash)"
  "includesStr ''END:VCALENDAR'' (generateCalendar host config clock events userHash)"
  "includesStr ''VERSION:2.0'' (generateCalendar host config clock events userHash)"
  "includesStr ''PRODID:'' (generateCalendar host config clock events userHash)"
proof -
  have "''BEGIN:VCALENDAR'' \<in> set (calendarLines host config clock events userHash)"
    by (simp add: calendarLines_def calendarHeader_def)
  from includesStr_line[OF this] show
    "includesStr ''BEGIN:VCALENDAR'' (generateCalendar host config clock events userHash)" by simp
  have "''END:VCALENDAR'' \<in> set (calendarLines host config clock events userHash)"
    by (simp add: calendarLines_def)
  from includesStr_line[OF this] show
    "includesStr ''END:VCALENDAR'' (generateCalendar host config clock events userHash)" by simp
  have "''VERSION:2.0'' \<in> set (calendarLines host config clock events userHash)"
    by (simp add: calendarLines_def calendarHeader_def)
  from includesStr_line[OF this] show
    "includesStr ''VERSION:2.0'' (generateCalendar host config clock events userHash)" by simp
  have "''PRODID:'' @ tpl (prodId config) \<in> set (calendarLines host config clock events userHash)"
    by (simp add: calendarLines_def calendarHeader_def)
  from includesStr_line[OF this, of "''PRODID:''"] show
    "includesStr ''PRODID:'' (generateCalendar host config clock events userHash)" by simp
qed

lemma validate_generated:
  "errors (validateCalendar (generateCalendar host config clock events userHash))
     = (if matchCount ''BEGIN:VEVENT'' (generateCalendar host config clock events userHash)
            \<noteq> matchCount ''END:VEVENT'' (generateCalendar host config clock events userHash)
        then [''Mismatched VEVENT tags: ''
                @ showInt (int (matchCount ''BEGIN:VEVENT''
                    (generateCalendar host config clock events userHash)))
                @ '' begin, ''
                @ showInt (int (matchCount ''END:VEVENT''
                    (generateCalendar host config clock events userHash)))
                @ '' end'']
        else [])"
  unfolding validateCalendar_def Let_def
  by (simp only: envelope_present ValidationReport.simps not_True_eq_False if_False append_Nil)

lemma validate_marker_free:
  assumes "\<forall>s\<in>set (configTexts config userHash). markerFree s"
    "\<forall>event\<in>set events. \<forall>s\<in>set (eventTexts host event). markerFree s"
  shows "errors (validateCalendar (generateCalendar host config clock events userHash)) = []"
  unfolding validate_generated
  using matchCount_generateCalendar[OF isMarker_begin assms, of clock]
    matchCount_generateCalendar[OF isMarker_end assms, of clock]
  by (simp only: if_False not_True_eq_False simp_thms)

subsection \<open>A sample block\<close>

lemma matchCount_lines:
  assumes "isMarker m"
  shows "matchCount m (generateCalendar host config clock events userHash)
           = sum_list (map (matchCount m) (calendarLines host config clock events userHash))"
  unfolding generateCalendar_def
  by (rule matchCount_join[OF marker_notin_digits(5,6,1)[OF assms]])

lemma sample_block:
  "generateEvent (hostAt 0) defaultConfig 1704067200000
     (sampleEvent n t ''2024-02-29'' None) userHash
   = [''BEGIN:VEVENT'', ''UID:'' @ showInt n @ ''-'' @ userHash @ ''@yatwa.app'',
      ''DTSTAMP:20240101T000000Z'', ''CREATED:20240101T000000Z'',
      ''LAST-MODIFIED:20240101T000000Z'', ''DTSTART;VALUE=DATE:20240229'',
      ''DTEND;VALUE=DATE:20240301'', ''SUMMARY:'' @ escapeText t, ''CATEGORIES:PERSONAL'',
      ''PRIORITY:5'', ''STATUS:CONFIRMED'', ''TRANSP:OPAQUE'', ''CLASS:PRIVATE'', ''SEQUENCE:0'',
      ''URL:http://localhost?hash='' @ userHash, ''X-YATWA-ICON:calendar'',
      ''X-YATWA-ID:'' @ showInt n, ''END:VEVENT'']"
  by (simp add: generateEvent_def dateLines_def sampleEvent_def Let_def stamp_2024 leap_day_lines
      calendar_icon showInt_digits truthy_def categoryText_def defaultConfig_def tpl_def)

lemma default_header:
  "calendarHeader defaultConfig userHash
   = [''BEGIN:VCALENDAR'', ''VERSION:2.0'', ''PRODID:-//YATWA//Yet Another Trash Web App//EN'',
      ''CALSCALE:GREGORIAN'', ''METHOD:PUBLISH'',
      ''X-WR-CALNAME:YATWA Calendar - '' @ substring 0 8 userHash,
      ''X-WR-CALDESC:Personal calendar from YATWA - Yet Another Trash Web App'',
      ''X-WR-TIMEZONE:Europe/Berlin'', ''X-PUBLISHED-TTL:PT1H'',
      ''URL:http://localhost/api/ical/'' @ userHash, ''REFRESH-INTERVAL;VALUE=DURATION:PT1H'',
      ''X-WR-RELCALID:'' @ userHash]"
  by (simp add: calendarHeader_def defaultConfig_def tpl_def)

lemma default_header_count:
  assumes "isMarker m"
  shows "sum_list (map (matchCount m) (calendarHeader defaultConfig userHash))
           = 2 * matchCount m userHash"
  using assms matchCount_take8[OF isMarker_begin, of userHash] matchCount_take8[OF isMarker_end, of userHash]
  unfolding default_header isMarker_def
  by (elim disjE) (simp_all del: sum_list_eq_0_iff)

subsection \<open>Balanced blocks\<close>

text \<open>
  Against claim C3: a user identifier that carries a line break and the text
  \<^verbatim>\<open>BEGIN:VEVENT\<close> is copied unescaped into four lines; the document of one event then
  holds five begin markers and one end marker.
\<close>

theorem userHash_with_marker_unbalanced:
  "length [sampleEvent 1 ''Leap day'' ''2024-02-29'' None] = 1
   \<and> matchCount ''BEGIN:VEVENT''
         (generateCalendar (hostAt 0) defaultConfig (\<lambda>k. 1704067200000)
            [sampleEvent 1 ''Leap day'' ''2024-02-29'' None] (''x'' @ CRLF @ ''BEGIN:VEVENT'')) = 5
   \<and> matchCount ''END:VEVENT''
         (generateCalendar (hostAt 0) defaultConfig (\<lambda>k. 1704067200000)
            [sampleEvent 1 ''Leap day'' ''2024-02-29'' None] (''x'' @ CRLF @ ''BEGIN:VEVENT'')) = 1"
proof -
  have b: "matchCount ''BEGIN:VEVENT'' (''x'' @ CRLF @ ''BEGIN:VEVENT'') = 1"
    and e: "matchCount ''END:VEVENT'' (''x'' @ CRLF @ ''BEGIN:VEVENT'') = 0"
    by (simp_all add: CRLF_def CR_def LF_def)
  have t: "escapeText ''Leap day'' = ''Leap day''"
    by (simp add: escapeText_def replaceAll_def substring_def BSL_def LF_def CR_def)
  have "sum_list (map (matchCount ''BEGIN:VEVENT'')
          (calendarLines (hostAt 0) defaultConfig (\<lambda>k. 1704067200000)
            [sampleEvent 1 ''Leap day'' ''2024-02-29'' None] (''x'' @ CRLF @ ''BEGIN:VEVENT''))) = 5"
    unfolding calendarLines_def
    using default_header_count[OF isMarker_begin, of "''x'' @ CRLF @ ''BEGIN:VEVENT''"]
      matchCount_timezone[OF isMarker_begin] b
    by (simp add: sample_block t showInt_digits matchCount_blocker CRLF_def CR_def LF_def
        del: sum_list_eq_0_iff)
  moreover have "sum_list (map (matchCount ''END:VEVENT'')
          (calendarLines (hostAt 0) defaultConfig (\<lambda>k. 1704067200000)
            [sampleEvent 1 ''Leap day'' ''2024-02-29'' None] (''x'' @ CRLF @ ''BEGIN:VEVENT''))) = 1"
    unfolding calendarLines_def
    using default_header_count[OF isMarker_end, of "''x'' @ CRLF @ ''BEGIN:VEVENT''"]
      matchCount_timezone[OF isMarker_end] e
    by (simp add: sample_block t showInt_digits matchCount_blocker CRLF_def CR_def LF_def
        del: sum_list_eq_0_iff)
  ultimately show ?thesis
    by (simp only: matchCount_lines[OF isMarker_begin] matchCount_lines[OF isMarker_end]) simp
qed

text \<open>
  Claim C3 as amended. When none of the texts copied into the document (those of the
  configuration, the user identifier, and for each event the escaped title and
  description, the icon, the text of its category and the date string) holds
  \<^verbatim>\<open>BEGIN:VEVENT\<close> or \<^verbatim>\<open>END:VEVENT\<close>, the document holds as many of each marker as
  there are events. The markers are counted as \<^verbatim>\<open>validateCalendar\<close> counts them.
\<close>

theorem generateCalendar_balanced:
  assumes "\<forall>s\<in>set (configTexts config userHash). markerFree s"
    and "\<forall>event\<in>set events. \<forall>s\<in>set (eventTexts host event). markerFree s"
  shows "matchCount ''BEGIN:VEVENT'' (generateCalendar host config clock events userHash)
           = length events
         \<and> matchCount ''END:VEVENT'' (generateCalendar host config clock events userHash)
           = length events"
  using matchCount_generateCalendar[OF isMarker_begin assms]
    matchCount_generateCalendar[OF isMarker_end assms] by simp

lemma default_texts_free: "\<forall>s\<in>set (configTexts defaultConfig ''0123456789abcdef''). markerFree s"
  by code_simp

lemma leap_day_texts_free:
  "\<forall>event\<in>set [sampleEvent 1 ''Leap day'' ''2024-02-29'' None].
     \<forall>s\<in>set (eventTexts (hostAt 0) event). markerFree s"
  by code_simp

theorem generateCalendar_balanced_witness:
  "matchCount ''BEGIN:VEVENT''
     (generateCalendar (hostAt 0) defaultConfig (\<lambda>k. 1704067200000)
        [sampleEvent 1 ''Leap day'' ''2024-02-29'' None] ''0123456789abcdef'') = 1
   \<and> matchCount ''END:VEVENT''
     (generateCalendar (hostAt 0) defaultConfig (\<lambda>k. 1704067200000)
        [sampleEvent 1 ''Leap day'' ''2024-02-29'' None] ''0123456789abcdef'') = 1"
proof -
  note r = generateCalendar_balanced[OF default_texts_free leap_day_texts_free,
      of "\<lambda>k. 1704067200000"]
  have l: "length [sampleEvent 1 ''Leap day'' ''2024-02-29'' None] = 1" by simp
  show ?thesis by (rule r[unfolded l])
qed

subsection \<open>The empty feed\<close>

text \<open>
  Against claim C9: for the user identifier \<^verbatim>\<open>BEGIN:VEVENT\<close> the document of no events is
  reported invalid, with two begin markers counted and no end marker.
\<close>

theorem empty_feed_with_marker_invalid:
  "errors (validateCalendar
      (generateCalendar (hostAt 0) defaultConfig (\<lambda>k. 1704067200000) [] ''BEGIN:VEVENT''))
     = [''Mismatched VEVENT tags: 2 begin, 0 end'']
   \<and> \<not> isValid (validateCalendar
      (generateCalendar (hostAt 0) defaultConfig (\<lambda>k. 1704067200000) [] ''BEGIN:VEVENT''))"
proof -
  have b: "matchCount ''BEGIN:VEVENT''
      (generateCalendar (hostAt 0) defaultConfig (\<lambda>k. 1704067200000) [] ''BEGIN:VEVENT'') = 2"
    unfolding matchCount_lines[OF isMarker_begin] calendarLines_def
    using default_header_count[OF isMarker_begin, of "''BEGIN:VEVENT''"]
      matchCount_timezone[OF isMarker_begin]
    by (simp del: sum_list_eq_0_iff)
  have e: "matchCount ''END:VEVENT''
      (generateCalendar (hostAt 0) defaultConfig (\<lambda>k. 1704067200000) [] ''BEGIN:VEVENT'') = 0"
    unfolding matchCount_lines[OF isMarker_end] calendarLines_def
    using default_header_count[OF isMarker_end, of "''BEGIN:VEVENT''"]
      matchCount_timezone[OF isMarker_end]
    by (simp del: sum_list_eq_0_iff)
  have "errors (validateCalendar
      (generateCalendar (hostAt 0) defaultConfig (\<lambda>k. 1704067200000) [] ''BEGIN:VEVENT''))
     = [''Mismatched VEVENT tags: 2 begin, 0 end'']"
    unfolding validate_generated b e by (simp add: showInt_digits)
  then show ?thesis by (simp add: isValid_errors)
qed

text \<open>
  Claim C9 as amended. When the texts of the configuration and the user identifier hold
  neither marker, the document of no events is the envelope alone, with no begin and no
  end marker, and \<^verbatim>\<open>validateCalendar\<close> reports it valid, without errors.
\<close>

theorem generateCalendar_empty_valid:
  assumes "\<forall>s\<in>set (configTexts config userHash). markerFree s"
  shows "generateCalendar host config clock [] userHash
           = join CRLF (calendarHeader config userHash @ generateTimezone @ [''END:VCALENDAR''])
               @ CRLF
         \<and> matchCount ''BEGIN:VEVENT'' (generateCalendar host config clock [] userHash) = 0
         \<and> matchCount ''END:VEVENT'' (generateCalendar host config clock [] userHash) = 0
         \<and> isValid (validateCalendar (generateCalendar host config clock [] userHash))
         \<and> errors (validateCalendar (generateCalendar host config clock [] userHash)) = []"
proof -
  have n: "\<forall>event\<in>set []. \<forall>s\<in>set (eventTexts host event). markerFree s" by simp
  have "generateCalendar host config clock [] userHash
          = join CRLF (calendarHeader config userHash @ generateTimezone @ [''END:VCALENDAR''])
              @ CRLF"
    by (simp add: generateCalendar_def calendarLines_def)
  moreover note matchCount_generateCalendar[OF isMarker_begin assms n, of clock]
    matchCount_generateCalendar[OF isMarker_end assms n, of clock]
  moreover note validate_marker_free[OF assms n, of clock]
  ultimately show ?thesis by (simp only: isValid_errors list.size simp_thms)
qed

theorem generateCalendar_empty_valid_witness:
  "matchCount ''BEGIN:VEVENT''
     (generateCalendar (hostAt 0) defaultConfig (\<lambda>k. 1704067200000) [] ''0123456789abcdef'') = 0
   \<and> isValid (validateCalendar
     (generateCalendar (hostAt 0) defaultConfig (\<lambda>k. 1704067200000) [] ''0123456789abcdef''))"
proof -
  note r = generateCalendar_empty_valid[OF default_texts_free, of "hostAt 0" "\<lambda>k. 1704067200000"]
  show ?thesis
    by (rule conjI[OF r[THEN conjunct2, THEN conjunct1]
          r[THEN conjunct2, THEN conjunct2, THEN conjunct2, THEN conjunct1]])
qed

subsection \<open>Validating what was generated\<close>

text \<open>
  Claim C10 at an event titled \<^verbatim>\<open>BEGIN:VEVENT\<close>: the title is copied into the
  \<^verbatim>\<open>SUMMARY\<close> line, the validator counts two begin markers and one end marker, and the
  document is reported invalid.
\<close>

theorem marker_title_invalid:
  "errors (validateCalendar
      (generateCalendar (hostAt 0) defaultConfig (\<lambda>k. 1704067200000)
         [sampleEvent 1 ''BEGIN:VEVENT'' ''2024-02-29'' None] ''0123456789abcdef''))
     = [''Mismatched VEVENT tags: 2 begin, 1 end'']
   \<and> \<not> isValid (validateCalendar
      (generateCalendar (hostAt 0) defaultConfig (\<lambda>k. 1704067200000)
         [sampleEvent 1 ''BEGIN:VEVENT'' ''2024-02-29'' None] ''0123456789abcdef''))"
proof -
  have h: "matchCount ''BEGIN:VEVENT'' ''0123456789abcdef'' = 0"
    "matchCount ''END:VEVENT'' ''0123456789abcdef'' = 0" by simp_all
  have t: "escapeText ''BEGIN:VEVENT'' = ''BEGIN:VEVENT''"
    by (simp add: escapeText_def replaceAll_def substring_def BSL_def LF_def CR_def)
  have b: "matchCount ''BEGIN:VEVENT''
      (generateCalendar (hostAt 0) defaultConfig (\<lambda>k. 1704067200000)
         [sampleEvent 1 ''BEGIN:VEVENT'' ''2024-02-29'' None] ''0123456789abcdef'') = 2"
    unfolding matchCount_lines[OF isMarker_begin] calendarLines_def
    using default_header_count[OF isMarker_begin, of "''0123456789abcdef''"]
      matchCount_timezone[OF isMarker_begin]
    by (simp add: sample_block t showInt_digits del: sum_list_eq_0_iff)
  have e: "matchCount ''END:VEVENT''
      (generateCalendar (hostAt 0) defaultConfig (\<lambda>k. 1704067200000)
         [sampleEvent 1 ''BEGIN:VEVENT'' ''2024-02-29'' None] ''0123456789abcdef'') = 1"
    unfolding matchCount_lines[OF isMarker_end] calendarLines_def
    using default_header_count[OF isMarker_end, of "''0123456789abcdef''"]
      matchCount_timezone[OF isMarker_end]
    by (simp add: sample_block t showInt_digits del: sum_list_eq_0_iff)
  have "errors (validateCalendar
      (generateCalendar (hostAt 0) defaultConfig (\<lambda>k. 1704067200000)
         [sampleEvent 1 ''BEGIN:VEVENT'' ''2024-02-29'' None] ''0123456789abcdef''))
     = [''Mismatched VEVENT tags: 2 begin, 1 end'']"
    unfolding validate_generated b e by (simp add: showInt_digits)
  then show ?thesis by (simp add: isValid_errors)
qed

text \<open>
  When none of the texts copied into the document holds a marker, the generated document
  is reported valid, without errors.
\<close>

theorem validate_generateCalendar:
  assumes "\<forall>s\<in>set (configTexts config userHash). markerFree s"
    and "\<forall>event\<in>set events. \<forall>s\<in>set (eventTexts host event). markerFree s"
  shows "isValid (validateCalendar (generateCalendar host config clock events userHash))
         \<and> errors (validateCalendar (generateCalendar host config clock events userHash)) = []"
  using validate_marker_free[OF assms, of clock] by (simp only: isValid_errors simp_thms)

theorem validate_generateCalendar_witness:
  "isValid (validateCalendar
     (generateCalendar (hostAt 0) defaultConfig (\<lambda>k. 1704067200000)
        [sampleEvent 1 ''Leap day'' ''2024-02-29'' None] ''0123456789abcdef''))
   \<and> errors (validateCalendar
     (generateCalendar (hostAt 0) defaultConfig (\<lambda>k. 1704067200000)
        [sampleEvent 1 ''Leap day'' ''2024-02-29'' None] ''0123456789abcdef'')) = []"
  by (rule validate_generateCalendar[OF default_texts_free leap_day_texts_free,
      of "\<lambda>k. 1704067200000"])

end
